theory Spec2Isabelle
  imports Main "HOL-Library.Word" "HOL-Library.List_Lexorder"
begin

section \<open>Data model of the partition pruner\<close>

text \<open>
  Encoded keys are C++ \<open>std::string\<close>s that are only ever compared, appended and tested
  for emptiness. \<open>std::string\<close> compares with \<open>char_traits<char>\<close>, that is as unsigned
  bytes, lexicographically, a proper prefix being smaller: this is the order of
  \<open>HOL-Library.List_Lexorder\<close> on lists of 8-bit words.
\<close>

type_synonym bytes = "8 word list"

text \<open>The private structs of \<open>partition_pruner.h\<close>. The field \<open>end\<close> is named \<open>end_key\<close>.\<close>

record RangeBounds =
  lower :: bytes
  upper :: bytes

record PartitionKeyRange =
  start :: bytes
  end_key :: bytes

record RangeBoundsAndPartitionKeyRanges =
  range_bounds :: RangeBounds
  partition_key_ranges :: "PartitionKeyRange list"

text \<open>
  The only data member of \<open>PartitionPruner\<close> is the vector
  \<open>range_bounds_to_partition_key_ranges_\<close>; a vector is a list whose last element is
  \<open>back()\<close>.
\<close>

type_synonym pruner = "RangeBoundsAndPartitionKeyRanges list"

text \<open>The four accessors of \<open>Partition\<close> (declared in \<open>partition.h\<close>) that the pruner reads.\<close>

record Partition =
  range_key_start :: bytes
  range_key_end :: bytes
  partition_key_start :: bytes
  partition_key_end :: bytes

text \<open>
  A failed \<open>CHECK\<close> aborts the process; \<open>back()\<close> of an empty vector has undefined
  behaviour. Both are outcomes of the model.
\<close>

datatype failure = CheckFailed | UndefinedBehaviour

subsection \<open>What the pruner consumes\<close>

text \<open>
  The schema, the column predicates, the scan spec and the partition schema are declared in
  headers that are not part of the sources at hand; the records below hold the members and
  accessors that \<open>partition_pruner.cc\<close> uses. A column value (a \<open>const void*\<close> to the
  \<open>type_info()->size()\<close> bytes of one cell) is the byte string of the cell.
\<close>

type_synonym ColumnId = nat

datatype PredicateType =
  PredNone | PredEquality | PredRange | PredIsNotNull | PredIsNull | PredInList

record ColumnPredicate =
  predicate_type :: PredicateType
  raw_lower :: bytes
  raw_values :: "bytes list"

text \<open>
  \<open>IsMinValue\<close> is the test of the column's type; \<open>Encode\<close> is the key encoder of the
  type, \<open>GetKeyEncoder<string>(type_info).Encode(value, is_last, &buffer)\<close>, as a
  function from the buffer before to the buffer after.
\<close>

record TypeInfo =
  IsMinValue :: "bytes \<Rightarrow> bool"
  Encode :: "bytes \<Rightarrow> bool \<Rightarrow> bytes \<Rightarrow> bytes"

record ColumnSchema =
  name :: string
  type_info :: TypeInfo

record Schema =
  columns :: "ColumnSchema list"
  col_ids :: "ColumnId list"
  num_key_columns :: nat

record EncodedKey =
  encoded_key :: bytes
  raw_keys :: "bytes list"

text \<open>A null \<open>EncodedKey\<close> pointer is \<open>None\<close>; the predicate map is a partial function.\<close>

record ScanSpec =
  predicates :: "string \<Rightarrow> ColumnPredicate option"
  lower_bound_key :: "EncodedKey option"
  exclusive_upper_bound_key :: "EncodedKey option"
  lower_bound_partition_key :: bytes
  exclusive_upper_bound_partition_key :: bytes
  CanShortCircuit :: bool

record HashDimension =
  column_ids :: "ColumnId list"
  num_buckets :: nat
  seed :: "32 word"

type_synonym HashSchema = "HashDimension list"

record RangeWithHashSchema =
  seg_lower :: bytes
  seg_upper :: bytes
  seg_hash_schema :: HashSchema

record PartitionSchema =
  hash_schema :: HashSchema
  range_schema_column_ids :: "ColumnId list"
  ranges_with_hash_schemas :: "RangeWithHashSchema list"

text \<open>
  The functions of \<open>key_util\<close> and of \<open>PartitionSchema\<close> that the pruner calls and whose
  code is elsewhere are parameters of the model. A row is the list of its cells.
  \<open>EncodeKey\<close> maps the buffer before to the buffer after; \<open>IncrementPrimaryKey\<close> returns
  the incremented row, or \<open>None\<close> where the C++ function returns false; the two
  \<open>Push...KeyPredicates\<close> functions return their count together with the row they leave.
\<close>

record externals =
  EncodeKey :: "nat list \<Rightarrow> bytes list \<Rightarrow> bytes \<Rightarrow> bytes"
  IncrementPrimaryKey :: "bytes list \<Rightarrow> nat \<Rightarrow> bytes list option"
  PushLowerBoundKeyPredicates ::
    "nat list \<Rightarrow> (string \<Rightarrow> ColumnPredicate option) \<Rightarrow> bytes list \<Rightarrow> nat \<times> bytes list"
  PushUpperBoundKeyPredicates ::
    "nat list \<Rightarrow> (string \<Rightarrow> ColumnPredicate option) \<Rightarrow> bytes list \<Rightarrow> nat \<times> bytes list"
  HashValueForEncodedColumns :: "bytes \<Rightarrow> HashDimension \<Rightarrow> nat"

text \<open>
  Modelled from the spec: the key encoder of \<open>UINT32\<close> (\<open>key_encoder.h\<close> is not among the
  sources). The spec has bucket components encoded as 4-byte big-endian \<open>u32\<close>;
  \<open>hash_encoder.Encode(&bucket, &buffer)\<close> appends these four bytes.
\<close>

definition encode_u32 :: "32 word \<Rightarrow> bytes" where
  "encode_u32 x = [ucast (drop_bit 24 x), ucast (drop_bit 16 x), ucast (drop_bit 8 x), ucast x]"

text \<open>
  Modelled from the spec: the schema's id-to-index lookup \<open>find_column_by_id\<close>
  (\<open>kColumnNotFound\<close> is \<open>None\<close>) and \<open>column_by_id\<close>, which has no defined result for
  an id that the schema does not have.
\<close>

fun find_column_from :: "nat \<Rightarrow> ColumnId list \<Rightarrow> ColumnId \<Rightarrow> nat option" where
  "find_column_from i [] cid = None"
| "find_column_from i (c # cs) cid = (if c = cid then Some i else find_column_from (Suc i) cs cid)"

definition find_column_by_id :: "Schema \<Rightarrow> ColumnId \<Rightarrow> nat option" where
  "find_column_by_id schema cid = find_column_from 0 (col_ids schema) cid"

definition column_by_id :: "Schema \<Rightarrow> ColumnId \<Rightarrow> failure + ColumnSchema" where
  "column_by_id schema cid =
     (case find_column_by_id schema cid of
        None \<Rightarrow> Inl UndefinedBehaviour
      | Some i \<Rightarrow> if i < length (columns schema) then Inr (columns schema ! i)
                  else Inl UndefinedBehaviour)"

section \<open>Deriving the range keys of the scan\<close>

text \<open>
  \<open>AreRangeColumnsPrefixOfPrimaryKey\<close>: the \<open>CHECK\<close>, then the loop comparing
  \<open>schema.column_id(col_idx)\<close> with \<open>range_columns[col_idx]\<close>. After the \<open>CHECK\<close>
  the schema has a column for every index of the loop; the second equation of the loop is
  for a schema with fewer columns than key columns, which the code cannot receive.
\<close>

fun prefix_loop :: "ColumnId list \<Rightarrow> ColumnId list \<Rightarrow> bool" where
  "prefix_loop ids [] = True"
| "prefix_loop [] (r # rs) = False"
| "prefix_loop (c # cs) (r # rs) = (if c \<noteq> r then False else prefix_loop cs rs)"

definition AreRangeColumnsPrefixOfPrimaryKey :: "Schema \<Rightarrow> ColumnId list \<Rightarrow> failure + bool" where
  "AreRangeColumnsPrefixOfPrimaryKey schema range_columns =
     (if \<not> length range_columns \<le> num_key_columns schema then Inl CheckFailed
      else Inr (prefix_loop (col_ids schema) range_columns))"

text \<open>
  The \<open>memcpy\<close> loop: cell \<open>idx\<close> of the row receives cell \<open>idx\<close> of the raw keys. The
  indexes are those of key columns, which the row and the raw keys of an encoded key have.
\<close>

fun copy_cells :: "nat list \<Rightarrow> bytes list \<Rightarrow> bytes list \<Rightarrow> bytes list" where
  "copy_cells [] raw row = row"
| "copy_cells (idx # rest) raw row = copy_cells rest raw (row[idx := raw ! idx])"

text \<open>The loop \<open>min_suffix &= ...IsMinValue(raw_keys()[idx])\<close> over the given indexes.\<close>

fun min_suffix_loop :: "Schema \<Rightarrow> bytes list \<Rightarrow> nat list \<Rightarrow> bool \<Rightarrow> bool" where
  "min_suffix_loop schema raw [] min_suffix = min_suffix"
| "min_suffix_loop schema raw (idx # rest) min_suffix =
     min_suffix_loop schema raw rest
       (min_suffix \<and> IsMinValue (type_info (columns schema ! idx)) (raw ! idx))"

text \<open>
  \<open>EncodeRangeKeysFromPrimaryKeyBounds\<close>. The two output strings are passed in and
  returned as a pair; \<open>buf\<close> is the content of the freshly allocated row buffer, which
  C++ leaves indeterminate.
\<close>

definition EncodeRangeKeysFromPrimaryKeyBounds ::
  "externals \<Rightarrow> Schema \<Rightarrow> ScanSpec \<Rightarrow> nat \<Rightarrow> bytes list \<Rightarrow> bytes \<times> bytes \<Rightarrow> bytes \<times> bytes" where
  "EncodeRangeKeysFromPrimaryKeyBounds ext schema scan_spec num_range_columns buf keys =
     (let range_key_start = fst keys; range_key_end = snd keys in
      if lower_bound_key scan_spec = None \<and> exclusive_upper_bound_key scan_spec = None
      then (range_key_start, range_key_end)
      else if num_range_columns = num_key_columns schema
      then (case lower_bound_key scan_spec of
              None \<Rightarrow> range_key_start | Some k \<Rightarrow> encoded_key k,
            case exclusive_upper_bound_key scan_spec of
              None \<Rightarrow> range_key_end | Some k \<Rightarrow> encoded_key k)
      else
        let col_idxs = [0..<num_range_columns];
            row = (case lower_bound_key scan_spec of
                     None \<Rightarrow> buf | Some k \<Rightarrow> copy_cells col_idxs (raw_keys k) buf);
            range_key_start = (case lower_bound_key scan_spec of
                     None \<Rightarrow> range_key_start
                   | Some k \<Rightarrow> EncodeKey ext col_idxs row range_key_start)
        in case exclusive_upper_bound_key scan_spec of
             None \<Rightarrow> (range_key_start, range_key_end)
           | Some k \<Rightarrow>
               let row = copy_cells col_idxs (raw_keys k) row;
                   min_suffix = min_suffix_loop schema (raw_keys k)
                                  [num_range_columns..<num_key_columns schema] True
               in if \<not> min_suffix
                  then (case IncrementPrimaryKey ext row num_range_columns of
                          None \<Rightarrow> (range_key_start, range_key_end)
                        | Some row' \<Rightarrow>
                            (range_key_start, EncodeKey ext col_idxs row' range_key_end))
                  else (range_key_start, EncodeKey ext col_idxs row range_key_end))"

text \<open>\<open>EncodeRangeKeysFromPredicates\<close>: the loop finding the column indexes, with its checks.\<close>

fun range_col_idxs :: "Schema \<Rightarrow> ColumnId list \<Rightarrow> failure + nat list" where
  "range_col_idxs schema [] = Inr []"
| "range_col_idxs schema (column # rest) =
     (case find_column_by_id schema column of
        None \<Rightarrow> Inl CheckFailed
      | Some col_idx \<Rightarrow>
          if \<not> col_idx < num_key_columns schema then Inl CheckFailed
          else (case range_col_idxs schema rest of
                  Inl e \<Rightarrow> Inl e
                | Inr idxs \<Rightarrow> Inr (col_idx # idxs)))"

definition EncodeRangeKeysFromPredicates ::
  "externals \<Rightarrow> Schema \<Rightarrow> (string \<Rightarrow> ColumnPredicate option) \<Rightarrow> ColumnId list \<Rightarrow> bytes list \<Rightarrow>
   bytes \<times> bytes \<Rightarrow> failure + bytes \<times> bytes" where
  "EncodeRangeKeysFromPredicates ext schema preds range_columns buf keys =
     (case range_col_idxs schema range_columns of
        Inl e \<Rightarrow> Inl e
      | Inr col_idxs \<Rightarrow>
          let (n_lower, row) = PushLowerBoundKeyPredicates ext col_idxs preds buf;
              range_key_start = (if n_lower > 0 then EncodeKey ext col_idxs row (fst keys)
                                 else fst keys);
              (n_upper, row) = PushUpperBoundKeyPredicates ext col_idxs preds row;
              range_key_end = (if n_upper > 0 then EncodeKey ext col_idxs row (snd keys)
                               else snd keys)
          in Inr (range_key_start, range_key_end))"

section \<open>Hash components\<close>

text \<open>
  \<open>PruneHashComponent\<close>: the loop over the columns of the dimension multiplies the encoded
  strings by the predicate values; \<open>FindOrDie\<close> and the \<open>CHECK\<close> abort.
\<close>

fun encode_columns :: "Schema \<Rightarrow> ScanSpec \<Rightarrow> ColumnId list \<Rightarrow> bytes list \<Rightarrow> failure + bytes list" where
  "encode_columns schema scan_spec [] encoded_strings = Inr encoded_strings"
| "encode_columns schema scan_spec (cid # rest) encoded_strings =
     (case column_by_id schema cid of
        Inl e \<Rightarrow> Inl e
      | Inr column \<Rightarrow>
          (case predicates scan_spec (name column) of
             None \<Rightarrow> Inl CheckFailed
           | Some predicate \<Rightarrow>
               if predicate_type predicate \<noteq> PredEquality \<and>
                  predicate_type predicate \<noteq> PredInList
               then Inl CheckFailed
               else
                 let predicate_values =
                       (if predicate_type predicate = PredEquality then [raw_lower predicate]
                        else raw_values predicate);
                     new_encoded_strings =
                       concat (map (\<lambda>encoded_string.
                                 map (\<lambda>predicate_value.
                                        Encode (type_info column) predicate_value (rest = [])
                                          encoded_string)
                                     predicate_values)
                               encoded_strings)
                 in encode_columns schema scan_spec rest new_encoded_strings))"

text \<open>The loop setting \<open>hash_bucket_bitset[hash_value]\<close>; an index past the end is undefined.\<close>

fun set_buckets :: "externals \<Rightarrow> HashDimension \<Rightarrow> bytes list \<Rightarrow> bool list \<Rightarrow> failure + bool list" where
  "set_buckets ext hash_dimension [] hash_bucket_bitset = Inr hash_bucket_bitset"
| "set_buckets ext hash_dimension (encoded_string # rest) hash_bucket_bitset =
     (let hash_value = HashValueForEncodedColumns ext encoded_string hash_dimension in
      if \<not> hash_value < length hash_bucket_bitset then Inl UndefinedBehaviour
      else set_buckets ext hash_dimension rest (hash_bucket_bitset[hash_value := True]))"

definition PruneHashComponent ::
  "externals \<Rightarrow> HashDimension \<Rightarrow> Schema \<Rightarrow> ScanSpec \<Rightarrow> failure + bool list" where
  "PruneHashComponent ext hash_dimension schema scan_spec =
     (case encode_columns schema scan_spec (column_ids hash_dimension) [[]] of
        Inl e \<Rightarrow> Inl e
      | Inr encoded_strings \<Rightarrow>
          set_buckets ext hash_dimension encoded_strings
            (replicate (num_buckets hash_dimension) False))"

section \<open>Constructing the partition key ranges\<close>

text \<open>The inner loop of the first part of \<open>ConstructPartitionKeyRanges\<close>, with its \<open>break\<close>.\<close>

fun can_prune_loop :: "Schema \<Rightarrow> ScanSpec \<Rightarrow> ColumnId list \<Rightarrow> failure + bool" where
  "can_prune_loop schema scan_spec [] = Inr True"
| "can_prune_loop schema scan_spec (column_id # rest) =
     (case column_by_id schema column_id of
        Inl e \<Rightarrow> Inl e
      | Inr column \<Rightarrow>
          (case predicates scan_spec (name column) of
             None \<Rightarrow> Inr False
           | Some predicate \<Rightarrow>
               if predicate_type predicate \<noteq> PredEquality \<and>
                  predicate_type predicate \<noteq> PredInList
               then Inr False
               else can_prune_loop schema scan_spec rest))"

fun hash_bucket_bitsets_loop ::
  "externals \<Rightarrow> Schema \<Rightarrow> ScanSpec \<Rightarrow> HashSchema \<Rightarrow> failure + bool list list" where
  "hash_bucket_bitsets_loop ext schema scan_spec [] = Inr []"
| "hash_bucket_bitsets_loop ext schema scan_spec (hash_dimension # rest) =
     (case can_prune_loop schema scan_spec (column_ids hash_dimension) of
        Inl e \<Rightarrow> Inl e
      | Inr can_prune \<Rightarrow>
          (case (if can_prune then PruneHashComponent ext hash_dimension schema scan_spec
                 else Inr (replicate (num_buckets hash_dimension) True)) of
             Inl e \<Rightarrow> Inl e
           | Inr hash_bucket_bitset \<Rightarrow>
               (case hash_bucket_bitsets_loop ext schema scan_spec rest of
                  Inl e \<Rightarrow> Inl e
                | Inr bitsets \<Rightarrow> Inr (hash_bucket_bitset # bitsets))))"

text \<open>
  The index of the final constrained component: the size of the hash schema when a range
  bound is set, else that size minus the distance from \<open>rbegin()\<close> to the first bitset,
  from the right, that holds a \<open>false\<close>.
\<close>

definition constrained_index :: "HashSchema \<Rightarrow> bool list list \<Rightarrow> RangeBounds \<Rightarrow> nat" where
  "constrained_index hs hash_bucket_bitsets rb =
     (if lower rb \<noteq> [] \<or> upper rb \<noteq> [] then length hs
      else length hs - length (takeWhile (\<lambda>x. \<not> False \<in> set x) (rev hash_bucket_bitsets)))"

text \<open>
  The body of the bucket loop for a set bucket: \<open>bucket_upper\<close> is computed in
  \<open>uint32_t\<close>, and both numbers are appended with the \<open>UINT32\<close> key encoder.
\<close>

definition append_bucket :: "bool \<Rightarrow> PartitionKeyRange \<Rightarrow> 32 word \<Rightarrow> PartitionKeyRange" where
  "append_bucket is_last partition_key_range bucket =
     (let bucket_upper = (if is_last then bucket + 1 else bucket)
      in \<lparr>start = start partition_key_range @ encode_u32 bucket,
          end_key = end_key partition_key_range @ encode_u32 bucket_upper\<rparr>)"

text \<open>
  The loop \<open>for (uint32_t bucket = 0; bucket < buckets_bitset.size(); ++bucket)\<close>, over
  the bucket numbers that are left. A bitset has \<open>num_buckets\<close> entries, an \<open>int32_t\<close>,
  so the counter does not wrap.
\<close>

fun bucket_loop :: "bool \<Rightarrow> bool list \<Rightarrow> PartitionKeyRange \<Rightarrow> nat list \<Rightarrow> PartitionKeyRange list" where
  "bucket_loop is_last buckets_bitset pkr [] = []"
| "bucket_loop is_last buckets_bitset pkr (bucket # rest) =
     (if \<not> buckets_bitset ! bucket then bucket_loop is_last buckets_bitset pkr rest
      else append_bucket is_last pkr (of_nat bucket) #
           bucket_loop is_last buckets_bitset pkr rest)"

fun range_loop :: "bool \<Rightarrow> bool list \<Rightarrow> PartitionKeyRange list \<Rightarrow> PartitionKeyRange list" where
  "range_loop is_last buckets_bitset [] = []"
| "range_loop is_last buckets_bitset (pkr # rest) =
     bucket_loop is_last buckets_bitset pkr [0..<length buckets_bitset] @
     range_loop is_last buckets_bitset rest"

text \<open>The loop over \<open>hash_idx\<close>, from the given index up to the constrained index.\<close>

function hash_loop ::
  "bool list list \<Rightarrow> nat \<Rightarrow> RangeBounds \<Rightarrow> nat \<Rightarrow> PartitionKeyRange list \<Rightarrow> PartitionKeyRange list" where
  "hash_loop hash_bucket_bitsets c_index rb hash_idx ranges =
     (if hash_idx < c_index
      then let is_last = (hash_idx + 1 = c_index \<and> upper rb = [])
           in hash_loop hash_bucket_bitsets c_index rb (hash_idx + 1)
                (range_loop is_last (hash_bucket_bitsets ! hash_idx) ranges)
      else ranges)"
  by pat_completeness auto
termination
  by (relation "measure (\<lambda>(b, c, r, i, p). c - i)") auto

text \<open>
  The loop that removes the ranges past the scan's exclusive upper bound partition key:
  a reverse iterator at position \<open>i\<close> (element \<open>i - 1\<close>) over a vector that \<open>pop_back\<close>
  shrinks, as in \<open>remove_loop\<close> below.
\<close>

fun upper_bound_loop :: "bytes \<Rightarrow> PartitionKeyRange list \<Rightarrow> nat \<Rightarrow> PartitionKeyRange list" where
  "upper_bound_loop ub v 0 = v"
| "upper_bound_loop ub v (Suc i) =
     (if end_key (v ! i) \<noteq> [] \<and> ub \<ge> end_key (v ! i) then v
      else if ub \<le> start (v ! i) then upper_bound_loop ub (butlast v) i
      else upper_bound_loop ub (v[i := (v ! i)\<lparr>end_key := ub\<rparr>]) i)"

text \<open>The part of \<open>ConstructPartitionKeyRanges\<close> that follows the bitsets.\<close>

definition ranges_of_bitsets ::
  "ScanSpec \<Rightarrow> HashSchema \<Rightarrow> RangeBounds \<Rightarrow> bool list list \<Rightarrow> PartitionKeyRange list" where
  "ranges_of_bitsets scan_spec hs rb hash_bucket_bitsets =
     (let c_index = constrained_index hs hash_bucket_bitsets rb;
          ranges =
            hash_loop hash_bucket_bitsets c_index rb 0 [\<lparr>start = [], end_key = []\<rparr>];
          ranges =
            map (\<lambda>r. \<lparr>start = start r @ lower rb, end_key = end_key r @ upper rb\<rparr>)
              ranges
      in if exclusive_upper_bound_partition_key scan_spec \<noteq> []
         then upper_bound_loop (exclusive_upper_bound_partition_key scan_spec)
                ranges (length ranges)
         else ranges)"

definition ConstructPartitionKeyRanges ::
  "externals \<Rightarrow> Schema \<Rightarrow> ScanSpec \<Rightarrow> HashSchema \<Rightarrow> RangeBounds \<Rightarrow>
   failure + PartitionKeyRange list" where
  "ConstructPartitionKeyRanges ext schema scan_spec hs rb =
     (case hash_bucket_bitsets_loop ext schema scan_spec hs of
        Inl e \<Rightarrow> Inl e
      | Inr hash_bucket_bitsets \<Rightarrow> Inr (ranges_of_bitsets scan_spec hs rb hash_bucket_bitsets))"

section \<open>The cursor\<close>

text \<open>\<open>NumRangesRemaining\<close>: the loop adding up the sizes of the buckets' vectors.\<close>

fun NumRangesRemaining_loop :: "nat \<Rightarrow> pruner \<Rightarrow> nat" where
  "NumRangesRemaining_loop num_ranges [] = num_ranges"
| "NumRangesRemaining_loop num_ranges (r # rest) =
     NumRangesRemaining_loop (num_ranges + length (partition_key_ranges r)) rest"

definition NumRangesRemaining :: "pruner \<Rightarrow> nat" where
  "NumRangesRemaining p = NumRangesRemaining_loop 0 p"

definition HasMorePartitionKeyRanges :: "pruner \<Rightarrow> bool" where
  "HasMorePartitionKeyRanges p = (NumRangesRemaining p \<noteq> 0)"

text \<open>
  \<open>NextPartitionKey\<close>: the \<open>CHECK\<close>, then \<open>back().partition_key_ranges.back().start\<close>.
  After the \<open>CHECK\<close> the outer vector is not empty; the inner \<open>back()\<close> is undefined
  when the last bucket has no range left. The method is \<open>const\<close>: the pruner is only read.
\<close>

definition NextPartitionKey :: "pruner \<Rightarrow> failure + bytes" where
  "NextPartitionKey p =
     (if \<not> HasMorePartitionKeyRanges p then Inl CheckFailed
      else if partition_key_ranges (last p) = [] then Inl UndefinedBehaviour
      else Inr (start (last (partition_key_ranges (last p)))))"

text \<open>
  The inner loop of \<open>RemovePartitionKeyRange\<close> walks a reverse iterator over the vector
  while \<open>pop_back\<close> shrinks it. The reverse iterator is a position \<open>i\<close> counted from
  \<open>begin()\<close>: it designates element \<open>i - 1\<close>, \<open>++\<close> decrements \<open>i\<close>, and \<open>rend()\<close> is
  position 0. \<open>pop_back\<close> removes the last element of the vector, whichever element the
  iterator designates. The position never exceeds the size, so every read is in range.
  This is what the loop does with the pointer iterators of a vector; the C++ standard
  itself says that \<open>pop_back\<close> invalidates an iterator at the end of the vector.
\<close>

fun remove_loop :: "bytes \<Rightarrow> PartitionKeyRange list \<Rightarrow> nat \<Rightarrow> PartitionKeyRange list" where
  "remove_loop upper_bound v 0 = v"
| "remove_loop upper_bound v (Suc i) =
     (if upper_bound \<le> start (v ! i) then v
      else if end_key (v ! i) = [] \<or> upper_bound < end_key (v ! i)
           then remove_loop upper_bound (v[i := (v ! i)\<lparr>start := upper_bound\<rparr>]) i
           else remove_loop upper_bound (butlast v) i)"

definition RemovePartitionKeyRange :: "bytes \<Rightarrow> pruner \<Rightarrow> pruner" where
  "RemovePartitionKeyRange upper_bound p =
     (if upper_bound = [] then []
      else map (\<lambda>b. b\<lparr>partition_key_ranges :=
                       remove_loop upper_bound (partition_key_ranges b)
                         (length (partition_key_ranges b))\<rparr>) p)"

text \<open>
  \<open>std::lower_bound(first, last, value, comp)\<close> returns the furthermost position such that
  the comparison holds of every element before it, the partition point of a sequence that
  the comparison partitions (the precondition of the library function).
\<close>

definition lower_bound :: "'a list \<Rightarrow> ('a \<Rightarrow> bool) \<Rightarrow> nat" where
  "lower_bound xs cmp = length (takeWhile cmp xs)"

text \<open>
  \<open>ShouldPrune\<close>: the loop over the buckets, with its \<open>continue\<close> and its early
  \<open>return false\<close>. The search runs over \<open>rbegin() .. rend()\<close>, the reversed vector.
\<close>

fun ShouldPrune :: "pruner \<Rightarrow> Partition \<Rightarrow> bool" where
  "ShouldPrune [] part = True"
| "ShouldPrune (b # rest) part =
     (if lower (range_bounds b) \<noteq> [] \<and> range_key_start part \<noteq> lower (range_bounds b) \<and>
         upper (range_bounds b) \<noteq> [] \<and> range_key_end part \<noteq> upper (range_bounds b)
      then ShouldPrune rest part
      else
        let rs = rev (partition_key_ranges b);
            range_it = lower_bound rs
              (\<lambda>scan_range. end_key scan_range \<noteq> [] \<and>
                             end_key scan_range \<le> partition_key_start part)
        in if \<not> (range_it = length rs \<or>
                   (partition_key_end part \<noteq> [] \<and>
                    partition_key_end part \<le> start (rs ! range_it)))
           then False
           else ShouldPrune rest part)"

section \<open>Initialising the pruner\<close>

text \<open>
  The loop of \<open>Init\<close> over \<open>ranges_with_hash_schemas_\<close>, with its \<open>continue\<close>s. The
  two vectors \<open>range_bounds\<close> and \<open>hash_schemas_per_range\<close> grow together and are one
  list of pairs.
\<close>

fun select_ranges ::
  "bytes \<Rightarrow> bytes \<Rightarrow> RangeWithHashSchema list \<Rightarrow> (RangeBounds \<times> HashSchema) list" where
  "select_ranges scan_range_lower_bound scan_range_upper_bound [] = []"
| "select_ranges scan_range_lower_bound scan_range_upper_bound (r # rest) =
     (let this = (\<lparr>lower = seg_lower r, upper = seg_upper r\<rparr>, seg_hash_schema r);
          others = select_ranges scan_range_lower_bound scan_range_upper_bound rest
      in if scan_range_lower_bound = [] \<and> scan_range_upper_bound = [] then this # others
         else if scan_range_lower_bound = []
              then (if scan_range_upper_bound > seg_lower r then this # others else others)
         else if scan_range_upper_bound = []
              then (if seg_upper r = [] \<or> scan_range_lower_bound < seg_upper r
                    then this # others else others)
         else if (seg_upper r = [] \<or> scan_range_lower_bound < seg_upper r) \<and>
                 scan_range_upper_bound > seg_lower r
              then this # others
         else others)"

text \<open>The loop of \<open>Init\<close> that constructs the ranges of each selected range.\<close>

fun construct_buckets ::
  "externals \<Rightarrow> Schema \<Rightarrow> ScanSpec \<Rightarrow> bytes \<Rightarrow> bytes \<Rightarrow> (RangeBounds \<times> HashSchema) list \<Rightarrow>
   failure + pruner" where
  "construct_buckets ext schema scan_spec scan_range_lower_bound scan_range_upper_bound [] = Inr []"
| "construct_buckets ext schema scan_spec scan_range_lower_bound scan_range_upper_bound
     ((rb, hs) # rest) =
     (let bounds = (if scan_range_lower_bound = [] \<and> scan_range_upper_bound = []
                    then \<lparr>lower = lower rb, upper = upper rb\<rparr>
                    else \<lparr>lower = scan_range_lower_bound, upper = scan_range_upper_bound\<rparr>)
      in case ConstructPartitionKeyRanges ext schema scan_spec hs bounds of
           Inl e \<Rightarrow> Inl e
         | Inr ranges \<Rightarrow>
             (case construct_buckets ext schema scan_spec scan_range_lower_bound
                     scan_range_upper_bound rest of
                Inl e \<Rightarrow> Inl e
              | Inr others \<Rightarrow>
                  Inr (\<lparr>range_bounds = rb,
                        partition_key_ranges = rev ranges\<rparr> # others)))"

text \<open>The range keys of the scan, the first part of \<open>Init\<close>.\<close>

definition scan_range_bounds ::
  "externals \<Rightarrow> Schema \<Rightarrow> PartitionSchema \<Rightarrow> ScanSpec \<Rightarrow> bytes list \<Rightarrow> failure + bytes \<times> bytes" where
  "scan_range_bounds ext schema partition_schema scan_spec buf =
     (let range_columns = range_schema_column_ids partition_schema in
      if range_columns \<noteq> []
      then (case AreRangeColumnsPrefixOfPrimaryKey schema range_columns of
              Inl e \<Rightarrow> Inl e
            | Inr True \<Rightarrow>
                Inr (EncodeRangeKeysFromPrimaryKeyBounds ext schema scan_spec
                       (length range_columns) buf ([], []))
            | Inr False \<Rightarrow>
                EncodeRangeKeysFromPredicates ext schema (predicates scan_spec) range_columns
                  buf ([], []))
      else Inr ([], []))"

text \<open>The buckets that \<open>Init\<close> stores before it removes the ranges below the scan's lower bound.\<close>

definition stored_buckets ::
  "externals \<Rightarrow> Schema \<Rightarrow> PartitionSchema \<Rightarrow> ScanSpec \<Rightarrow> bytes \<Rightarrow> bytes \<Rightarrow> failure + pruner" where
  "stored_buckets ext schema partition_schema scan_spec scan_range_lower_bound
     scan_range_upper_bound =
     (if ranges_with_hash_schemas partition_schema = []
      then (case ConstructPartitionKeyRanges ext schema scan_spec (hash_schema partition_schema)
                   \<lparr>lower = scan_range_lower_bound, upper = scan_range_upper_bound\<rparr> of
              Inl e \<Rightarrow> Inl e
            | Inr ranges \<Rightarrow>
                Inr [\<lparr>range_bounds = \<lparr>lower = [], upper = []\<rparr>,
                      partition_key_ranges = rev ranges\<rparr>])
      else construct_buckets ext schema scan_spec scan_range_lower_bound scan_range_upper_bound
             (select_ranges scan_range_lower_bound scan_range_upper_bound
                (ranges_with_hash_schemas partition_schema)))"

text \<open>
  \<open>Init\<close> of a freshly constructed pruner, whose vector is empty: the result is the new
  content of the vector.
\<close>

definition Init ::
  "externals \<Rightarrow> Schema \<Rightarrow> PartitionSchema \<Rightarrow> ScanSpec \<Rightarrow> bytes list \<Rightarrow> failure + pruner" where
  "Init ext schema partition_schema scan_spec buf =
     (if CanShortCircuit scan_spec then Inr []
      else case scan_range_bounds ext schema partition_schema scan_spec buf of
             Inl e \<Rightarrow> Inl e
           | Inr (scan_range_lower_bound, scan_range_upper_bound) \<Rightarrow>
               (case stored_buckets ext schema partition_schema scan_spec
                       scan_range_lower_bound scan_range_upper_bound of
                  Inl e \<Rightarrow> Inl e
                | Inr p \<Rightarrow>
                    if lower_bound_partition_key scan_spec \<noteq> []
                    then Inr (RemovePartitionKeyRange (lower_bound_partition_key scan_spec) p)
                    else Inr p))"

section \<open>Specification-side definitions\<close>

text \<open>
  The definitions of this section are not translations of code: they state what the
  specification says, or the invariants that the proofs maintain.
\<close>

text \<open>
  \<open>ShouldPrune\<close> in the words of the specification: a bucket is skipped when both of its
  range bounds are set and differ from the partition's range keys; a bucket that is not
  skipped keeps the partition alive when the first range, in ascending order, whose end is
  empty or greater than the partition's start exists and starts before the partition's end.
\<close>

definition bucket_skipped :: "RangeBoundsAndPartitionKeyRanges \<Rightarrow> Partition \<Rightarrow> bool" where
  "bucket_skipped b part \<longleftrightarrow>
     (lower (range_bounds b) \<noteq> [] \<and> lower (range_bounds b) \<noteq> range_key_start part) \<and>
     (upper (range_bounds b) \<noteq> [] \<and> upper (range_bounds b) \<noteq> range_key_end part)"

definition bucket_keeps_alive :: "RangeBoundsAndPartitionKeyRanges \<Rightarrow> Partition \<Rightarrow> bool" where
  "bucket_keeps_alive b part =
     (case find (\<lambda>r. end_key r = [] \<or> partition_key_start part < end_key r)
             (rev (partition_key_ranges b)) of
        None \<Rightarrow> False
      | Some r \<Rightarrow> partition_key_end part = [] \<or> start r < partition_key_end part)"

text \<open>
  A range and a partition intersect when the range ends after the start of the partition and
  starts before its end, an empty end being unbounded.
\<close>

definition intersects :: "PartitionKeyRange \<Rightarrow> Partition \<Rightarrow> bool" where
  "intersects r part \<longleftrightarrow>
     (end_key r = [] \<or> partition_key_start part < end_key r) \<and>
     (partition_key_end part = [] \<or> start r < partition_key_end part)"

text \<open>
  \<open>advance_past\<close> on one bucket in the words of the specification, over the ranges in
  ascending order: stop at a range that starts at or after the bound, replace the start of a
  range that contains the bound and stop, drop any other range and go on.
\<close>

fun advance_bucket :: "bytes \<Rightarrow> PartitionKeyRange list \<Rightarrow> PartitionKeyRange list" where
  "advance_bucket u [] = []"
| "advance_bucket u (r # rs) =
     (if u \<le> start r then r # rs
      else if end_key r = [] \<or> u < end_key r then r\<lparr>start := u\<rparr> # rs
      else advance_bucket u rs)"

text \<open>
  The order that the ranges of one bucket keep: an earlier range starts before a later one,
  has an end, ends at or before the start of the later one, and ends at or before its end.
  A bucket stores its ranges reversed.
\<close>

definition ordered_pair :: "PartitionKeyRange \<Rightarrow> PartitionKeyRange \<Rightarrow> bool" where
  "ordered_pair a b \<longleftrightarrow>
     start a < start b \<and> end_key a \<noteq> [] \<and> end_key a \<le> start b \<and>
     (end_key b = [] \<or> end_key a \<le> end_key b)"

definition bucket_inv :: "PartitionKeyRange list \<Rightarrow> bool" where
  "bucket_inv v = sorted_wrt ordered_pair (rev v)"

definition cursor_inv :: "pruner \<Rightarrow> bool" where
  "cursor_inv p = list_all (\<lambda>b. bucket_inv (partition_key_ranges b)) p"

text \<open>
  The number of buckets of a hash dimension is an \<open>int32_t\<close>: a partition schema that the
  code can receive has fewer than \<open>2 ^ 31\<close> buckets in every dimension.
\<close>

definition wf_hash_schema :: "HashSchema \<Rightarrow> bool" where
  "wf_hash_schema hs = list_all (\<lambda>d. num_buckets d < 2 ^ 31) hs"

definition wf_partition_schema :: "PartitionSchema \<Rightarrow> bool" where
  "wf_partition_schema ps \<longleftrightarrow>
     wf_hash_schema (hash_schema ps) \<and>
     list_all (\<lambda>r. wf_hash_schema (seg_hash_schema r)) (ranges_with_hash_schemas ps)"

text \<open>Appending the range bounds to a range, and the invariant of the loop over \<open>hash_idx\<close>.\<close>

definition app_bounds :: "bytes \<Rightarrow> bytes \<Rightarrow> PartitionKeyRange \<Rightarrow> PartitionKeyRange" where
  "app_bounds lo hi r = \<lparr>start = start r @ lo, end_key = end_key r @ hi\<rparr>"

definition prefix_inv :: "nat \<Rightarrow> PartitionKeyRange list \<Rightarrow> bool" where
  "prefix_inv n prs \<longleftrightarrow>
     (\<forall>r \<in> set prs. end_key r = start r \<and> length (start r) = n) \<and>
     sorted_wrt (\<lambda>a b. start a < start b) prs"

text \<open>
  The included segments in the words of the specification: half-open overlap of the segment
  with the scan's range bounds, an empty bound being unbounded.
\<close>

definition segment_included :: "bytes \<Rightarrow> bytes \<Rightarrow> RangeWithHashSchema \<Rightarrow> bool" where
  "segment_included range_lower range_upper seg =
     (if range_lower = [] \<and> range_upper = [] then True
      else if range_lower = [] then seg_lower seg < range_upper
      else if range_upper = [] then seg_upper seg = [] \<or> range_lower < seg_upper seg
      else (seg_upper seg = [] \<or> range_lower < seg_upper seg) \<and> seg_lower seg < range_upper)"

definition seg_bounds :: "RangeWithHashSchema \<Rightarrow> RangeBounds" where
  "seg_bounds seg = \<lparr>lower = seg_lower seg, upper = seg_upper seg\<rparr>"

text \<open>
  The intersection of two half-open ranges of range keys: the greater lower bound (the empty
  string is the least string) and the smaller upper bound, an empty upper bound being
  unbounded.
\<close>

definition intersect_bounds :: "RangeBounds \<Rightarrow> RangeBounds \<Rightarrow> RangeBounds" where
  "intersect_bounds a b =
     \<lparr>lower = max (lower a) (lower b),
      upper = (if upper a = [] then upper b else if upper b = [] then upper a
               else min (upper a) (upper b))\<rparr>"

text \<open>
  The range bounds that \<open>Init\<close> gives to \<open>ConstructPartitionKeyRanges\<close> for a segment,
  and the relation between a stored bucket and the segment it is built from.
\<close>

definition bounds_for :: "bytes \<Rightarrow> bytes \<Rightarrow> RangeWithHashSchema \<Rightarrow> RangeBounds" where
  "bounds_for range_lower range_upper seg =
     (if range_lower = [] \<and> range_upper = [] then seg_bounds seg
      else \<lparr>lower = range_lower, upper = range_upper\<rparr>)"

definition built_from ::
  "externals \<Rightarrow> Schema \<Rightarrow> ScanSpec \<Rightarrow> bytes \<Rightarrow> bytes \<Rightarrow> RangeBoundsAndPartitionKeyRanges \<Rightarrow>
   RangeWithHashSchema \<Rightarrow> bool" where
  "built_from ext schema scan_spec range_lower range_upper b seg \<longleftrightarrow>
     range_bounds b = seg_bounds seg \<and>
     ConstructPartitionKeyRanges ext schema scan_spec (seg_hash_schema seg)
       (bounds_for range_lower range_upper seg) = Inr (rev (partition_key_ranges b))"

text \<open>The full cursor in natural order: the buckets in stored order, each bucket reversed.\<close>

definition cursor_ranges :: "pruner \<Rightarrow> PartitionKeyRange list" where
  "cursor_ranges p = concat (map (\<lambda>b. rev (partition_key_ranges b)) p)"

definition ascending_starts :: "PartitionKeyRange list \<Rightarrow> bool" where
  "ascending_starts rs = sorted_wrt (<) (map start rs)"

text \<open>
  A scan: each \<open>NextPartitionKey\<close> is followed by \<open>RemovePartitionKeyRange\<close> with the next
  bound of the list. The result is the list of the keys returned, or \<open>None\<close> when a call of
  \<open>NextPartitionKey\<close> does not return a key or a bound is not greater than the key just
  returned.
\<close>

fun scan_keys :: "pruner \<Rightarrow> bytes list \<Rightarrow> bytes list option" where
  "scan_keys p [] = Some []"
| "scan_keys p (e # es) =
     (case NextPartitionKey p of
        Inl f \<Rightarrow> None
      | Inr k \<Rightarrow>
          if k < e
          then (case scan_keys (RemovePartitionKeyRange e p) es of
                  None \<Rightarrow> None
                | Some ks \<Rightarrow> Some (k # ks))
          else None)"

text \<open>
  The row that holds the first \<open>n\<close> cells of the raw keys, the other cells being those of
  the buffer; and the range upper bound in the words of the specification.
\<close>

definition prefix_row :: "nat \<Rightarrow> bytes list \<Rightarrow> bytes list \<Rightarrow> bytes list" where
  "prefix_row n raw buf = map (\<lambda>i. if i < n then raw ! i else buf ! i) [0..<length buf]"

definition range_upper_spec :: "externals \<Rightarrow> Schema \<Rightarrow> nat \<Rightarrow> bytes list \<Rightarrow> EncodedKey \<Rightarrow> bytes" where
  "range_upper_spec ext schema n buf k =
     (if list_all (\<lambda>i. IsMinValue (type_info (columns schema ! i)) (raw_keys k ! i))
           [n..<num_key_columns schema]
      then EncodeKey ext [0..<n] (prefix_row n (raw_keys k) buf) []
      else case IncrementPrimaryKey ext (prefix_row n (raw_keys k) buf) n of
             Some row \<Rightarrow> EncodeKey ext [0..<n] row []
           | None \<Rightarrow> [])"

text \<open>
  The ranges that \<open>ConstructPartitionKeyRanges\<close> enumerates, in the words of the
  specification. A tuple holds one surviving bucket for each hash dimension below the
  constrained index, and the tuples come in the order of the nested loops, the first
  dimension outermost. The start of the range of a tuple is the encoding of its buckets
  followed by the range lower bound. Its end is, for the dimension of index \<open>i\<close> and the
  bucket \<open>b\<close>, the encoding of \<open>b + 1\<close> if \<open>i\<close> is the last index below the constrained index
  and the range upper bound is empty, else the encoding of \<open>b\<close>; then the range upper bound.
\<close>

definition surviving :: "bool list \<Rightarrow> nat list" where
  "surviving bitset = filter (\<lambda>b. bitset ! b) [0..<length bitset]"

fun bucket_tuples :: "bool list list \<Rightarrow> nat list list" where
  "bucket_tuples [] = [[]]"
| "bucket_tuples (bitset # rest) =
     concat (map (\<lambda>b. map ((#) b) (bucket_tuples rest)) (surviving bitset))"

definition end_bucket :: "nat \<Rightarrow> RangeBounds \<Rightarrow> nat \<Rightarrow> nat \<Rightarrow> 32 word" where
  "end_bucket c rb i b = (if Suc i = c \<and> upper rb = [] then of_nat b + 1 else of_nat b)"

definition extend_at :: "nat \<Rightarrow> RangeBounds \<Rightarrow> nat \<Rightarrow> PartitionKeyRange \<Rightarrow> nat list \<Rightarrow> PartitionKeyRange" where
  "extend_at c rb idx r t =
     \<lparr>start = start r @ concat (map (\<lambda>b. encode_u32 (of_nat b)) t),
      end_key = end_key r @
        concat (map (\<lambda>(i, b). encode_u32 (end_bucket c rb i b)) (zip [idx..<idx + length t] t))\<rparr>"

definition range_of_tuple :: "nat \<Rightarrow> RangeBounds \<Rightarrow> nat list \<Rightarrow> PartitionKeyRange" where
  "range_of_tuple c rb t =
     \<lparr>start = concat (map (\<lambda>b. encode_u32 (of_nat b)) t) @ lower rb,
      end_key =
        concat (map (\<lambda>(i, b). encode_u32 (end_bucket c rb i b)) (zip [0..<length t] t)) @
        upper rb\<rparr>"

section \<open>An example table\<close>

text \<open>
  A table with the key column \<open>k\<close> and the column \<open>v\<close>, range partitioned on \<open>k\<close> with the
  two ranges \<open>[1, 3)\<close> and \<open>[3, 5)\<close>, each hashed on \<open>k\<close> into two buckets; and a second
  schema with the key columns \<open>a\<close> and \<open>b\<close>. Cells are single bytes.
\<close>

definition ex_type :: TypeInfo where
  "ex_type = \<lparr>IsMinValue = (\<lambda>v. v = [0]), Encode = (\<lambda>v is_last buffer. buffer @ v)\<rparr>"

definition ex_schema :: Schema where
  "ex_schema = \<lparr>columns = [\<lparr>name = ''k'', type_info = ex_type\<rparr>,
                            \<lparr>name = ''v'', type_info = ex_type\<rparr>],
                 col_ids = [0, 1], num_key_columns = 1\<rparr>"

definition ex_schema_ab :: Schema where
  "ex_schema_ab = \<lparr>columns = [\<lparr>name = ''a'', type_info = ex_type\<rparr>,
                               \<lparr>name = ''b'', type_info = ex_type\<rparr>],
                    col_ids = [0, 1], num_key_columns = 2\<rparr>"

definition ex_ext :: externals where
  "ex_ext = \<lparr>EncodeKey = (\<lambda>idxs row buffer. buffer @ concat (map (\<lambda>i. row ! i) idxs)),
              IncrementPrimaryKey =
                (\<lambda>row n. if row ! 0 = [255] then None else Some (row[0 := map (\<lambda>x. x + 1) (row ! 0)])),
              PushLowerBoundKeyPredicates = (\<lambda>idxs preds row. (0, row)),
              PushUpperBoundKeyPredicates = (\<lambda>idxs preds row. (0, row)),
              HashValueForEncodedColumns = (\<lambda>encoded d. 0)\<rparr>"

definition ex_dim :: HashDimension where
  "ex_dim = \<lparr>column_ids = [0], num_buckets = 2, seed = 0\<rparr>"

definition ex_seg_1_3 :: RangeWithHashSchema where
  "ex_seg_1_3 = \<lparr>seg_lower = [1], seg_upper = [3], seg_hash_schema = [ex_dim]\<rparr>"

definition ex_seg_3_5 :: RangeWithHashSchema where
  "ex_seg_3_5 = \<lparr>seg_lower = [3], seg_upper = [5], seg_hash_schema = [ex_dim]\<rparr>"

definition ex_partition_schema :: PartitionSchema where
  "ex_partition_schema =
     \<lparr>hash_schema = [ex_dim], range_schema_column_ids = [0],
      ranges_with_hash_schemas = [ex_seg_1_3, ex_seg_3_5]\<rparr>"

text \<open>Three scans: all rows; the rows below the partition key \<open>(bucket 0, 3)\<close>; the keys from 2.\<close>

definition ex_scan :: ScanSpec where
  "ex_scan = \<lparr>predicates = (\<lambda>n. None), lower_bound_key = None,
               exclusive_upper_bound_key = None, lower_bound_partition_key = [],
               exclusive_upper_bound_partition_key = [], CanShortCircuit = False\<rparr>"

definition ex_scan_upper :: ScanSpec where
  "ex_scan_upper = ex_scan\<lparr>exclusive_upper_bound_partition_key := [0, 0, 0, 0, 3]\<rparr>"

definition ex_scan_from_2 :: ScanSpec where
  "ex_scan_from_2 = ex_scan\<lparr>lower_bound_key := Some \<lparr>encoded_key = [2], raw_keys = [[2]]\<rparr>\<rparr>"

text \<open>The cursors that \<open>Init\<close> builds for the three scans.\<close>

definition ex_cursor :: pruner where
  "ex_cursor =
     [\<lparr>range_bounds = \<lparr>lower = [1], upper = [3]\<rparr>,
       partition_key_ranges =
         [\<lparr>start = [0, 0, 0, 1, 1], end_key = [0, 0, 0, 1, 3]\<rparr>,
          \<lparr>start = [0, 0, 0, 0, 1], end_key = [0, 0, 0, 0, 3]\<rparr>]\<rparr>,
      \<lparr>range_bounds = \<lparr>lower = [3], upper = [5]\<rparr>,
       partition_key_ranges =
         [\<lparr>start = [0, 0, 0, 1, 3], end_key = [0, 0, 0, 1, 5]\<rparr>,
          \<lparr>start = [0, 0, 0, 0, 3], end_key = [0, 0, 0, 0, 5]\<rparr>]\<rparr>]"

definition ex_cursor_upper :: pruner where
  "ex_cursor_upper =
     [\<lparr>range_bounds = \<lparr>lower = [1], upper = [3]\<rparr>,
       partition_key_ranges = [\<lparr>start = [0, 0, 0, 0, 1], end_key = [0, 0, 0, 0, 3]\<rparr>]\<rparr>,
      \<lparr>range_bounds = \<lparr>lower = [3], upper = [5]\<rparr>, partition_key_ranges = []\<rparr>]"

definition ex_cursor_from_2 :: pruner where
  "ex_cursor_from_2 =
     [\<lparr>range_bounds = \<lparr>lower = [1], upper = [3]\<rparr>,
       partition_key_ranges =
         [\<lparr>start = [0, 0, 0, 1, 2], end_key = [0, 0, 0, 2]\<rparr>,
          \<lparr>start = [0, 0, 0, 0, 2], end_key = [0, 0, 0, 1]\<rparr>]\<rparr>,
      \<lparr>range_bounds = \<lparr>lower = [3], upper = [5]\<rparr>,
       partition_key_ranges =
         [\<lparr>start = [0, 0, 0, 1, 2], end_key = [0, 0, 0, 2]\<rparr>,
          \<lparr>start = [0, 0, 0, 0, 2], end_key = [0, 0, 0, 1]\<rparr>]\<rparr>]"

text \<open>The scan of the keys below 3, and a scan of the second schema below the key \<open>(4, 7)\<close>.\<close>

definition ex_scan_below_3 :: ScanSpec where
  "ex_scan_below_3 =
     ex_scan\<lparr>exclusive_upper_bound_key := Some \<lparr>encoded_key = [3], raw_keys = [[3]]\<rparr>\<rparr>"

definition ex_cursor_below_3 :: pruner where
  "ex_cursor_below_3 =
     [\<lparr>range_bounds = \<lparr>lower = [1], upper = [3]\<rparr>,
       partition_key_ranges =
         [\<lparr>start = [0, 0, 0, 1], end_key = [0, 0, 0, 1, 3]\<rparr>,
          \<lparr>start = [0, 0, 0, 0], end_key = [0, 0, 0, 0, 3]\<rparr>]\<rparr>]"

definition ex_key_4_7 :: EncodedKey where
  "ex_key_4_7 = \<lparr>encoded_key = [4, 7], raw_keys = [[4], [7]]\<rparr>"

definition ex_scan_below_4_7 :: ScanSpec where
  "ex_scan_below_4_7 = ex_scan\<lparr>exclusive_upper_bound_key := Some ex_key_4_7\<rparr>"

text \<open>A partition of the example table: bucket 1 of the range \<open>[1, 3)\<close>.\<close>

definition ex_partition :: Partition where
  "ex_partition = \<lparr>range_key_start = [1], range_key_end = [3],
                    partition_key_start = [0, 0, 0, 1, 1], partition_key_end = [0, 0, 0, 1, 3]\<rparr>"

text \<open>
  A table whose range \<open>[1, 3)\<close> is hashed into three buckets and whose range \<open>[3, 5)\<close> into
  one, and the cursor that \<open>Init\<close> builds for the scan of all its rows.
\<close>

definition ex_dim_3 :: HashDimension where
  "ex_dim_3 = \<lparr>column_ids = [0], num_buckets = 3, seed = 0\<rparr>"

definition ex_dim_1 :: HashDimension where
  "ex_dim_1 = \<lparr>column_ids = [0], num_buckets = 1, seed = 0\<rparr>"

definition ex_partition_schema_3_1 :: PartitionSchema where
  "ex_partition_schema_3_1 =
     \<lparr>hash_schema = [ex_dim_3], range_schema_column_ids = [0],
      ranges_with_hash_schemas =
        [\<lparr>seg_lower = [1], seg_upper = [3], seg_hash_schema = [ex_dim_3]\<rparr>,
         \<lparr>seg_lower = [3], seg_upper = [5], seg_hash_schema = [ex_dim_1]\<rparr>]\<rparr>"

definition ex_cursor_3_1 :: pruner where
  "ex_cursor_3_1 =
     [\<lparr>range_bounds = \<lparr>lower = [1], upper = [3]\<rparr>,
       partition_key_ranges =
         [\<lparr>start = [0, 0, 0, 2, 1], end_key = [0, 0, 0, 2, 3]\<rparr>,
          \<lparr>start = [0, 0, 0, 1, 1], end_key = [0, 0, 0, 1, 3]\<rparr>,
          \<lparr>start = [0, 0, 0, 0, 1], end_key = [0, 0, 0, 0, 3]\<rparr>]\<rparr>,
      \<lparr>range_bounds = \<lparr>lower = [3], upper = [5]\<rparr>,
       partition_key_ranges = [\<lparr>start = [0, 0, 0, 0, 3], end_key = [0, 0, 0, 0, 5]\<rparr>]\<rparr>]"

section \<open>Properties of the cursor\<close>

lemma NumRangesRemaining_loop_sum:
  "NumRangesRemaining_loop n p = n + sum_list (map (\<lambda>b. length (partition_key_ranges b)) p)"
  by (induction p arbitrary: n) auto

lemma NumRangesRemaining_zero_iff:
  "NumRangesRemaining p = 0 \<longleftrightarrow> (\<forall>b \<in> set p. partition_key_ranges b = [])"
  by (induction p) (auto simp: NumRangesRemaining_def NumRangesRemaining_loop_sum)

lemma ShouldPrune_all_empty:
  "\<forall>b \<in> set p. partition_key_ranges b = [] \<Longrightarrow> ShouldPrune p part"
  by (induction p) (auto simp: lower_bound_def)

text \<open>
  C10. When no range remains (\<open>NumRangesRemaining\<close> is 0), \<open>ShouldPrune\<close> returns true for
  every partition.
\<close>

theorem ShouldPrune_empty_cursor:
  "NumRangesRemaining p = 0 \<Longrightarrow> ShouldPrune p part"
  by (simp add: NumRangesRemaining_zero_iff ShouldPrune_all_empty)

theorem ShouldPrune_empty_cursor_witness:
  "NumRangesRemaining [\<lparr>range_bounds = \<lparr>lower = [1], upper = [2]\<rparr>, partition_key_ranges = []\<rparr>] = 0
   \<and> ShouldPrune [\<lparr>range_bounds = \<lparr>lower = [1], upper = [2]\<rparr>, partition_key_ranges = []\<rparr>]
        \<lparr>range_key_start = [1], range_key_end = [2],
         partition_key_start = [], partition_key_end = []\<rparr>"
  using ShouldPrune_empty_cursor
    [of "[\<lparr>range_bounds = \<lparr>lower = [1], upper = [2]\<rparr>, partition_key_ranges = []\<rparr>]"
        "\<lparr>range_key_start = [1], range_key_end = [2],
          partition_key_start = [], partition_key_end = []\<rparr>"]
  by (simp add: NumRangesRemaining_def)

lemma lower_bound_find:
  "(lower_bound xs c = length xs \<longleftrightarrow> find (\<lambda>x. \<not> c x) xs = None) \<and>
   (\<forall>r. find (\<lambda>x. \<not> c x) xs = Some r \<longrightarrow> xs ! lower_bound xs c = r)"
  by (induction xs) (auto simp: lower_bound_def)

lemma not_cmp: "(\<not> (e \<noteq> [] \<and> e \<le> (k::bytes))) = (e = [] \<or> k < e)"
  by auto

lemma ShouldPrune_step:
  "ShouldPrune (b # rest) part =
     ((bucket_skipped b part \<or> \<not> bucket_keeps_alive b part) \<and> ShouldPrune rest part)"
proof -
  let ?rs = "rev (partition_key_ranges b)"
  let ?c = "\<lambda>r. end_key r \<noteq> [] \<and> end_key r \<le> partition_key_start part"
  have f: "find (\<lambda>r. end_key r = [] \<or> partition_key_start part < end_key r) ?rs
             = find (\<lambda>x. \<not> ?c x) ?rs"
    by (simp only: not_cmp)
  show ?thesis
  proof (cases "find (\<lambda>x. \<not> ?c x) ?rs")
    case None
    with lower_bound_find [of ?rs ?c] have "lower_bound ?rs ?c = length ?rs" by simp
    with None f show ?thesis
      by (simp add: bucket_skipped_def bucket_keeps_alive_def Let_def)
  next
    case (Some r)
    with lower_bound_find [of ?rs ?c]
    have "lower_bound ?rs ?c \<noteq> length ?rs" "?rs ! lower_bound ?rs ?c = r" by auto
    with Some f show ?thesis
      by (auto simp: bucket_skipped_def bucket_keeps_alive_def Let_def)
  qed
qed

text \<open>
  The precondition of \<open>std::lower_bound\<close> in \<open>ShouldPrune\<close>: an ordered bucket is
  partitioned by the comparison.
\<close>

lemma lower_bound_partitioned:
  assumes "bucket_inv v"
  shows "sorted_wrt (\<lambda>a b. \<not> (end_key a \<noteq> [] \<and> end_key a \<le> k) \<longrightarrow>
                           \<not> (end_key b \<noteq> [] \<and> end_key b \<le> k)) (rev v)"
  using assms unfolding bucket_inv_def
  by (rule sorted_wrt_mono_rel [rotated]) (auto simp: ordered_pair_def)

lemma find_intersects:
  assumes "sorted_wrt ordered_pair rs"
  shows "(case find (\<lambda>r. end_key r = [] \<or> partition_key_start part < end_key r) rs of
            None \<Rightarrow> False
          | Some r \<Rightarrow> partition_key_end part = [] \<or> start r < partition_key_end part) \<longleftrightarrow>
         (\<exists>r \<in> set rs. intersects r part)"
  using assms
proof (induction rs)
  case Nil
  show ?case by simp
next
  case (Cons r rs)
  show ?case
  proof (cases "end_key r = [] \<or> partition_key_start part < end_key r")
    case True
    have "start r < partition_key_end part"
      if "r' \<in> set rs" "start r' < partition_key_end part" for r'
    proof -
      from Cons.prems that(1) have "start r < start r'" by (auto simp: ordered_pair_def)
      with that(2) show ?thesis by simp
    qed
    with True show ?thesis by (auto simp: intersects_def)
  next
    case False
    with Cons show ?thesis by (auto simp: intersects_def)
  qed
qed

lemma keeps_alive_intersects:
  "bucket_inv (partition_key_ranges b) \<Longrightarrow>
   bucket_keeps_alive b part \<longleftrightarrow> (\<exists>r \<in> set (partition_key_ranges b). intersects r part)"
  using find_intersects [of "rev (partition_key_ranges b)" part]
  by (simp add: bucket_inv_def bucket_keeps_alive_def)

text \<open>
  C4. \<open>ShouldPrune\<close> returns true exactly when every bucket is skipped or does not keep
  the partition alive; a bucket is skipped only when both mismatch conditions hold together,
  and it keeps the partition alive when the search finds a range and the partition does not
  end at or before the start of that range. On a cursor whose buckets are ordered, this is to
  say that no range of a bucket that is not skipped intersects the partition.
\<close>

theorem ShouldPrune_iff:
  "(ShouldPrune p part \<longleftrightarrow>
      (\<forall>b \<in> set p. bucket_skipped b part \<or> \<not> bucket_keeps_alive b part)) \<and>
   (cursor_inv p \<longrightarrow>
      (ShouldPrune p part \<longleftrightarrow>
         (\<forall>b \<in> set p. \<forall>r \<in> set (partition_key_ranges b).
            \<not> bucket_skipped b part \<longrightarrow> \<not> intersects r part)))"
proof -
  have 1: "ShouldPrune p part \<longleftrightarrow>
      (\<forall>b \<in> set p. bucket_skipped b part \<or> \<not> bucket_keeps_alive b part)"
  proof (induction p)
    case Nil
    show ?case by simp
  next
    case (Cons b rest)
    show ?case unfolding ShouldPrune_step Cons.IH by auto
  qed
  have 2: "ShouldPrune p part \<longleftrightarrow>
         (\<forall>b \<in> set p. \<forall>r \<in> set (partition_key_ranges b).
            \<not> bucket_skipped b part \<longrightarrow> \<not> intersects r part)" if "cursor_inv p"
  proof -
    from that have "\<forall>b \<in> set p. bucket_inv (partition_key_ranges b)"
      by (simp add: cursor_inv_def list_all_iff)
    then have "\<forall>b \<in> set p. bucket_keeps_alive b part \<longleftrightarrow>
                 (\<exists>r \<in> set (partition_key_ranges b). intersects r part)"
      by (simp add: keeps_alive_intersects)
    with 1 show ?thesis by blast
  qed
  from 1 2 show ?thesis by blast
qed

theorem ShouldPrune_iff_witness:
  "\<not> ShouldPrune ex_cursor ex_partition \<and>
   \<not> bucket_skipped (hd ex_cursor) ex_partition \<and>
   bucket_keeps_alive (hd ex_cursor) ex_partition \<and>
   intersects (hd (partition_key_ranges (hd ex_cursor))) ex_partition \<and>
   cursor_inv ex_cursor_upper \<and>
   ShouldPrune ex_cursor_upper ex_partition \<and>
   list_all (\<lambda>b. bucket_skipped b ex_partition \<or> \<not> bucket_keeps_alive b ex_partition)
     ex_cursor_upper \<and>
   list_all (\<lambda>b. list_all (\<lambda>r. bucket_skipped b ex_partition \<or> \<not> intersects r ex_partition)
                    (partition_key_ranges b)) ex_cursor_upper"
proof -
  have 1: "\<not> bucket_skipped (hd ex_cursor) ex_partition" by code_simp
  have 2: "bucket_keeps_alive (hd ex_cursor) ex_partition" by code_simp
  have 3: "hd ex_cursor \<in> set ex_cursor" by (simp add: ex_cursor_def)
  have 4: "ShouldPrune ex_cursor_upper ex_partition" by code_simp
  have 5: "cursor_inv ex_cursor_upper" by code_simp
  have 6: "intersects (hd (partition_key_ranges (hd ex_cursor))) ex_partition" by code_simp
  from 1 2 3 have 7: "\<not> ShouldPrune ex_cursor ex_partition"
    using ShouldPrune_iff [of ex_cursor ex_partition] by blast
  from 4 5 have "\<forall>b \<in> set ex_cursor_upper. \<forall>r \<in> set (partition_key_ranges b).
            \<not> bucket_skipped b ex_partition \<longrightarrow> \<not> intersects r ex_partition"
    using ShouldPrune_iff [of ex_cursor_upper ex_partition] by blast
  then have 8: "list_all (\<lambda>b. list_all (\<lambda>r. bucket_skipped b ex_partition \<or>
                    \<not> intersects r ex_partition) (partition_key_ranges b)) ex_cursor_upper"
    unfolding list_all_iff by blast
  from 4 have 9: "list_all (\<lambda>b. bucket_skipped b ex_partition \<or>
                    \<not> bucket_keeps_alive b ex_partition) ex_cursor_upper"
    using ShouldPrune_iff [of ex_cursor_upper ex_partition] unfolding list_all_iff by blast
  from 1 2 4 5 6 7 8 9 show ?thesis by blast
qed

lemma remove_loop_stop:
  "i = 0 \<or> u \<le> start (v ! (i - 1)) \<Longrightarrow> remove_loop u v i = v"
  by (cases i) auto

lemma remove_loop_advance:
  "sorted_wrt ordered_pair rs \<Longrightarrow>
   remove_loop u (rev rs) (length rs) = rev (advance_bucket u rs)"
proof (induction rs)
  case Nil
  show ?case by simp
next
  case (Cons r rs)
  have len: "length (rev rs @ [r]) = Suc (length rs)" by simp
  have nth: "(rev rs @ [r]) ! length rs = r" by (simp add: nth_append)
  show ?case
  proof (cases "u \<le> start r")
    case True
    then show ?thesis by (simp add: nth_append)
  next
    case nle: False
    show ?thesis
    proof (cases "end_key r = [] \<or> u < end_key r")
      case True
      have upd: "(rev rs @ [r])[length rs := r\<lparr>start := u\<rparr>] = rev rs @ [r\<lparr>start := u\<rparr>]"
        by (simp add: list_update_append)
      have "remove_loop u (rev rs @ [r\<lparr>start := u\<rparr>]) (length rs) = rev rs @ [r\<lparr>start := u\<rparr>]"
      proof (rule remove_loop_stop, cases rs)
        case Nil
        then show "length rs = 0 \<or> u \<le> start ((rev rs @ [r\<lparr>start := u\<rparr>]) ! (length rs - 1))"
          by simp
      next
        case (Cons q qs)
        with Cons.prems have "ordered_pair r q" by simp
        with True have "u \<le> start q" by (auto simp: ordered_pair_def)
        moreover have "(rev rs @ [r\<lparr>start := u\<rparr>]) ! (length rs - 1) = q"
          using Cons by (simp add: nth_append)
        ultimately show "length rs = 0 \<or> u \<le> start ((rev rs @ [r\<lparr>start := u\<rparr>]) ! (length rs - 1))"
          by simp
      qed
      with True nle show ?thesis by (simp add: nth_append list_update_append)
    next
      case False
      from Cons have "remove_loop u (rev rs) (length rs) = rev (advance_bucket u rs)" by simp
      with False nle show ?thesis by (simp add: nth_append)
    qed
  qed
qed

lemma advance_bucket_inv:
  "sorted_wrt ordered_pair rs \<Longrightarrow> sorted_wrt ordered_pair (advance_bucket u rs)"
proof (induction rs)
  case Nil
  show ?case by simp
next
  case (Cons r rs)
  then show ?case by (auto simp: ordered_pair_def)
qed

text \<open>
  C6. \<open>RemovePartitionKeyRange\<close> with an empty bound clears the cursor. With a bound
  that is not empty, on a cursor whose buckets are ordered (as \<open>Init\<close> leaves them and
  \<open>RemovePartitionKeyRange\<close> keeps them), every bucket's ranges are advanced as the
  specification says and nothing else changes.
\<close>

theorem RemovePartitionKeyRange_spec:
  "(upper_bound = [] \<longrightarrow> RemovePartitionKeyRange upper_bound p = []) \<and>
   (upper_bound \<noteq> [] \<and> cursor_inv p \<longrightarrow>
      RemovePartitionKeyRange upper_bound p =
        map (\<lambda>b. b\<lparr>partition_key_ranges :=
                     rev (advance_bucket upper_bound (rev (partition_key_ranges b)))\<rparr>) p)"
proof -
  have "remove_loop upper_bound (partition_key_ranges b) (length (partition_key_ranges b)) =
        rev (advance_bucket upper_bound (rev (partition_key_ranges b)))"
    if "bucket_inv (partition_key_ranges b)" for b :: RangeBoundsAndPartitionKeyRanges
    using remove_loop_advance [of "rev (partition_key_ranges b)" upper_bound] that
    by (simp add: bucket_inv_def)
  then show ?thesis
    by (auto simp: RemovePartitionKeyRange_def cursor_inv_def list_all_iff)
qed

section \<open>Byte strings and the bucket encoding\<close>

lemma div_mod_lex:
  fixes a b :: nat
  shows "a < b \<longleftrightarrow> a div 256 < b div 256 \<or> a div 256 = b div 256 \<and> a mod 256 < b mod 256"
proof -
  define qa ra qb rb where "qa = a div 256" and "ra = a mod 256" and "qb = b div 256" and "rb = b mod 256"
  have "a = 256 * qa + ra" "b = 256 * qb + rb" "ra < 256" "rb < 256"
    by (simp_all add: qa_def ra_def qb_def rb_def)
  then have "a < b \<longleftrightarrow> qa < qb \<or> qa = qb \<and> ra < rb"
    by linarith
  then show ?thesis by (simp only: qa_def ra_def qb_def rb_def)
qed

lemma unat_drop_bit_div: "unat (drop_bit n (x::32 word)) = unat x div 2 ^ n"
  unfolding unat_drop_bit_eq by (simp add: drop_bit_eq_div)

lemma nat_split4:
  fixes a b :: nat
  assumes "a < b" "b < 4294967296"
  shows "a div 16777216 mod 256 < b div 16777216 mod 256 \<or> a div 16777216 mod 256 = b div 16777216 mod 256 \<and>
     (a div 65536 mod 256 < b div 65536 mod 256 \<or> a div 65536 mod 256 = b div 65536 mod 256 \<and>
      (a div 256 mod 256 < b div 256 mod 256 \<or> a div 256 mod 256 = b div 256 mod 256 \<and> a mod 256 < b mod 256))"
proof -
  define a1 a2 a3 b1 b2 b3 where "a1 = a div 256" and "a2 = a1 div 256" and "a3 = a2 div 256"
    and "b1 = b div 256" and "b2 = b1 div 256" and "b3 = b2 div 256"
  have d: "a div 256 = a1" "a div 65536 = a2" "a div 16777216 = a3"
          "b div 256 = b1" "b div 65536 = b2" "b div 16777216 = b3"
    by (simp_all add: a1_def a2_def a3_def b1_def b2_def b3_def div_mult2_eq [symmetric])
  have "b1 < 16777216" using assms(2) unfolding b1_def by (rule_tac less_mult_imp_div_less) simp
  then have "b2 < 65536" unfolding b2_def by (rule_tac less_mult_imp_div_less) simp
  then have b3: "b3 < 256" unfolding b3_def by (rule_tac less_mult_imp_div_less) simp
  have l0: "a1 < b1 \<or> a1 = b1 \<and> a mod 256 < b mod 256"
    using assms(1) div_mod_lex [of a b] by (simp only: a1_def b1_def)
  have l1: "a1 < b1 \<longleftrightarrow> a2 < b2 \<or> a2 = b2 \<and> a1 mod 256 < b1 mod 256"
    using div_mod_lex [of a1 b1] by (simp only: a2_def b2_def)
  have l2: "a2 < b2 \<longleftrightarrow> a3 < b3 \<or> a3 = b3 \<and> a2 mod 256 < b2 mod 256"
    using div_mod_lex [of a2 b2] by (simp only: a3_def b3_def)
  have m: "a3 < b3 \<Longrightarrow> a3 mod 256 < b3 mod 256" using b3 by simp
  have e: "a1 = b1 \<Longrightarrow> a2 = b2" "a2 = b2 \<Longrightarrow> a3 = b3" 
    by (simp_all add: a2_def b2_def a3_def b3_def)
  show ?thesis unfolding d using l0 l1 l2 m e by blast
qed

lemma encode_u32_mono: "x < y \<Longrightarrow> encode_u32 x < encode_u32 y"
proof -
  assume "x < y"
  then have a: "unat x < unat y" by (simp add: word_less_nat_alt)
  have b: "unat y < 4294967296" using unsigned_less [of y, where ?'a = nat] by simp
  have c: "unat (ucast w :: 8 word) = unat w mod 256" for w :: "32 word"
    by (simp add: unsigned_ucast_eq take_bit_eq_mod)
  have d: "unat (drop_bit 24 w) = unat w div 16777216" "unat (drop_bit 16 w) = unat w div 65536"
    "unat (drop_bit 8 w) = unat w div 256" for w :: "32 word"
    using unat_drop_bit_div [of 24 w] unat_drop_bit_div [of 16 w] unat_drop_bit_div [of 8 w] by simp_all
  have e: "(u < v) = (unat u < unat v)" "(u = v) = (unat u = unat v)" for u v :: "8 word"
    by (simp_all add: word_less_nat_alt word_unat_eq_iff)
  show ?thesis
    unfolding encode_u32_def Cons_less_Cons e c d
    using nat_split4 [OF a b] by blast
qed

lemma length_encode_u32: "length (encode_u32 x) = 4" by (simp add: encode_u32_def)

lemma append_less_same_length:
  fixes a b :: bytes
  shows "length a = length b \<Longrightarrow> a < b \<Longrightarrow> a @ x < b @ y"
proof (induction a arbitrary: b)
  case Nil then show ?case by simp
next
  case (Cons h t)
  then obtain h' t' where b: "b = h' # t'" by (cases b) auto
  with Cons show ?case by auto
qed

lemma append_less_cancel:
  fixes a :: bytes
  shows "a @ x < a @ y \<longleftrightarrow> x < y"
  by (induction a) auto

lemma append_le_cancel:
  fixes a :: bytes
  shows "a @ x \<le> a @ y \<longleftrightarrow> x \<le> y"
  by (simp add: le_less append_less_cancel)

lemma le_append_self:
  fixes a :: bytes
  shows "a \<le> a @ x"
  using append_le_cancel [of a "[]" x] by simp

section \<open>The ranges that are constructed are ordered\<close>

lemma bucket_loop_map:
  "bucket_loop il bs pkr idxs =
     map (\<lambda>b. append_bucket il pkr (of_nat b)) (filter (\<lambda>b. bs ! b) idxs)"
  by (induction idxs) auto

lemma range_loop_concat:
  "range_loop il bs prs =
     concat (map (\<lambda>pkr. map (\<lambda>b. append_bucket il pkr (of_nat b))
                            (filter (\<lambda>b. bs ! b) [0..<length bs])) prs)"
  by (induction prs) (auto simp: bucket_loop_map)

lemma set_range_loop:
  "set (range_loop il bs prs) =
     {append_bucket il r (of_nat b) | r b. r \<in> set prs \<and> b < length bs \<and> bs ! b}"
  by (auto simp: range_loop_concat)

lemma sorted_wrt_bucket_loop:
  assumes "\<And>i j. i < j \<Longrightarrow> j < length bs \<Longrightarrow> R (append_bucket il r (of_nat i)) (append_bucket il r (of_nat j))"
  shows "sorted_wrt R (bucket_loop il bs r [0..<length bs])"
proof -
  have "sorted_wrt (\<lambda>i j. R (append_bucket il r (of_nat i)) (append_bucket il r (of_nat j))) [0..<length bs]"
    by (rule sorted_wrt_mono_rel [OF _ sorted_wrt_upt]) (auto intro: assms)
  then show ?thesis
    by (simp add: bucket_loop_map sorted_wrt_map sorted_wrt_filter)
qed

lemma sorted_wrt_range_loop:
  assumes "\<And>r i j. r \<in> set prs \<Longrightarrow> i < j \<Longrightarrow> j < length bs \<Longrightarrow>
              R (append_bucket il r (of_nat i)) (append_bucket il r (of_nat j))"
    and "sorted_wrt (\<lambda>r r'. \<forall>i j. i < length bs \<and> j < length bs \<longrightarrow>
              R (append_bucket il r (of_nat i)) (append_bucket il r' (of_nat j))) prs"
  shows "sorted_wrt R (range_loop il bs prs)"
  using assms
proof (induction prs)
  case Nil
  show ?case by simp
next
  case (Cons r rest)
  have 1: "sorted_wrt R (bucket_loop il bs r [0..<length bs])"
    by (rule sorted_wrt_bucket_loop) (simp add: Cons.prems(1))
  have 2: "sorted_wrt R (range_loop il bs rest)"
    using Cons by simp
  have 3: "R a b" if "a \<in> set (bucket_loop il bs r [0..<length bs])" "b \<in> set (range_loop il bs rest)" for a b
    using that Cons.prems(2) by (auto simp: bucket_loop_map set_range_loop)
  show ?case using 1 2 3 by (simp add: sorted_wrt_append)
qed

lemma of_nat_u32_less:
  "i < j \<Longrightarrow> j < 2 ^ 32 \<Longrightarrow> (of_nat i :: 32 word) < of_nat j"
  by (simp add: word_of_nat_less_iff take_bit_nat_eq_self)

lemma of_nat_u32_Suc_le:
  "i < j \<Longrightarrow> j < 2 ^ 32 \<Longrightarrow> (of_nat i + 1 :: 32 word) \<le> of_nat j"
proof -
  assume a: "i < j" "j < 2 ^ 32"
  have "(of_nat (i + 1) :: 32 word) \<le> of_nat j"
    unfolding word_of_nat_less_eq_iff using a by (simp add: take_bit_nat_eq_self)
  then show ?thesis by (simp only: of_nat_add of_nat_1)
qed

lemma encode_u32_mono_le: "x \<le> y \<Longrightarrow> encode_u32 x \<le> encode_u32 y"
  using encode_u32_mono [of x y] by (auto simp: le_less)

lemma encode_bucket_less:
  "i < j \<Longrightarrow> j < 2 ^ 32 \<Longrightarrow> encode_u32 (of_nat i) < encode_u32 (of_nat j)"
  by (rule encode_u32_mono) (rule of_nat_u32_less)

lemma encode_bucket_upper_le:
  "i < j \<Longrightarrow> j < 2 ^ 32 \<Longrightarrow> encode_u32 (of_nat i + 1) \<le> encode_u32 (of_nat j)"
  by (rule encode_u32_mono_le) (rule of_nat_u32_Suc_le)

lemma encode_u32_nonempty: "encode_u32 x \<noteq> []"
  by (simp add: encode_u32_def)

lemma prefix_inv_seed: "prefix_inv 0 [\<lparr>start = [], end_key = []\<rparr>]"
  by (simp add: prefix_inv_def)

lemma prefix_inv_step:
  assumes "prefix_inv n prs" "length bs \<le> 2 ^ 32"
  shows "prefix_inv (n + 4) (range_loop False bs prs)"
proof -
  have eq: "\<forall>r \<in> set prs. end_key r = start r \<and> length (start r) = n"
    and so: "sorted_wrt (\<lambda>a b. start a < start b) prs"
    using assms(1) by (simp_all add: prefix_inv_def)
  have 1: "\<forall>r \<in> set (range_loop False bs prs). end_key r = start r \<and> length (start r) = n + 4"
    using eq by (auto simp: set_range_loop append_bucket_def length_encode_u32)
  have 2: "sorted_wrt (\<lambda>a b. start a < start b) (range_loop False bs prs)"
  proof (rule sorted_wrt_range_loop)
    fix r i j
    assume "r \<in> set prs" "i < j" "j < length bs"
    then have "encode_u32 (of_nat i) < encode_u32 (of_nat j)"
      using assms(2) by (intro encode_bucket_less) auto
    then show "start (append_bucket False r (of_nat i)) < start (append_bucket False r (of_nat j))"
      by (simp add: append_bucket_def append_less_cancel)
  next
    show "sorted_wrt (\<lambda>r r'. \<forall>i j. i < length bs \<and> j < length bs \<longrightarrow>
            start (append_bucket False r (of_nat i)) < start (append_bucket False r' (of_nat j))) prs"
    proof (rule sorted_wrt_mono_rel [OF _ so])
      fix r r'
      assume "r \<in> set prs" "r' \<in> set prs" "start r < start r'"
      with eq have "length (start r) = length (start r')" "start r < start r'" by auto
      then show "\<forall>i j. i < length bs \<and> j < length bs \<longrightarrow>
            start (append_bucket False r (of_nat i)) < start (append_bucket False r' (of_nat j))"
        by (simp add: append_bucket_def append_less_same_length)
    qed
  qed
  show ?thesis using 1 2 by (simp add: prefix_inv_def)
qed

lemma prefix_inv_bounds:
  assumes "prefix_inv n prs"
  shows "sorted_wrt ordered_pair (map (app_bounds lo hi) prs)"
proof -
  have eq: "\<forall>r \<in> set prs. end_key r = start r \<and> length (start r) = n"
    and so: "sorted_wrt (\<lambda>a b. start a < start b) prs"
    using assms(1) by (simp_all add: prefix_inv_def)
  have "sorted_wrt (\<lambda>a b. ordered_pair (app_bounds lo hi a) (app_bounds lo hi b)) prs"
  proof (rule sorted_wrt_mono_rel [OF _ so])
    fix a b
    assume "a \<in> set prs" "b \<in> set prs" and lt: "start a < start b"
    with eq have e: "end_key a = start a" "end_key b = start b"
      and l: "length (start a) = length (start b)" by auto
    from l lt have ne: "start a \<noteq> []" by auto
    have "start a @ lo < start b @ lo" "start a @ hi < start b @ lo" "start a @ hi < start b @ hi"
      using l lt by (simp_all add: append_less_same_length)
    then show "ordered_pair (app_bounds lo hi a) (app_bounds lo hi b)"
      using e ne by (simp add: ordered_pair_def app_bounds_def less_imp_le)
  qed
  then show ?thesis by (simp add: sorted_wrt_map)
qed

lemma prefix_inv_last:
  assumes "prefix_inv n prs" "length bs < 2 ^ 32"
  shows "sorted_wrt ordered_pair (map (app_bounds lo []) (range_loop True bs prs))"
proof -
  have eq: "\<forall>r \<in> set prs. end_key r = start r \<and> length (start r) = n"
    and so: "sorted_wrt (\<lambda>a b. start a < start b) prs"
    using assms(1) by (simp_all add: prefix_inv_def)
  let ?R = "\<lambda>a b. ordered_pair (app_bounds lo [] a) (app_bounds lo [] b)"
  have "sorted_wrt ?R (range_loop True bs prs)"
  proof (rule sorted_wrt_range_loop)
    fix r i j
    assume r: "r \<in> set prs" and ij: "i < j" "j < length bs"
    then have j: "j < 2 ^ 32" using assms(2) by simp
    have 1: "encode_u32 (of_nat i) < encode_u32 (of_nat j)"
      using ij j by (intro encode_bucket_less)
    have 2: "encode_u32 (of_nat i + 1) \<le> encode_u32 (of_nat j)"
      using ij j by (intro encode_bucket_upper_le)
    have 3: "encode_u32 (of_nat j) \<le> encode_u32 (of_nat j) @ lo"
      by (rule le_append_self)
    have 7: "encode_u32 (of_nat i) @ lo < encode_u32 (of_nat j) @ lo"
      using 1 by (simp add: append_less_same_length length_encode_u32)
    have 5: "encode_u32 (of_nat i + 1) \<noteq> []" by (simp add: encode_u32_def)
    have 6: "encode_u32 (of_nat i + 1) \<le> encode_u32 (of_nat j + 1)"
    proof -
      have "i + 1 < j + 1" "j + 1 < 2 ^ 32" using ij assms(2) by auto
      then have "encode_u32 (of_nat (i + 1)) < encode_u32 (of_nat (j + 1))"
        by (rule encode_bucket_less)
      then show ?thesis by (simp only: of_nat_add of_nat_1 less_imp_le)
    qed
    from r eq have e: "end_key r = start r" by simp
    show "?R (append_bucket True r (of_nat i)) (append_bucket True r (of_nat j))"
      using 2 3 5 6 7 e
      by (auto simp: ordered_pair_def app_bounds_def append_bucket_def append_less_cancel
            append_le_cancel)
  next
    show "sorted_wrt (\<lambda>r r'. \<forall>i j. i < length bs \<and> j < length bs \<longrightarrow>
            ?R (append_bucket True r (of_nat i)) (append_bucket True r' (of_nat j))) prs"
    proof (rule sorted_wrt_mono_rel [OF _ so])
      fix r r'
      assume "r \<in> set prs" "r' \<in> set prs" "start r < start r'"
      with eq have "length (start r) = length (start r')" "start r < start r'"
        "end_key r = start r" "end_key r' = start r'" by auto
      then show "\<forall>i j. i < length bs \<and> j < length bs \<longrightarrow>
            ?R (append_bucket True r (of_nat i)) (append_bucket True r' (of_nat j))"
        by (simp add: append_bucket_def append_less_same_length ordered_pair_def app_bounds_def
              less_imp_le encode_u32_nonempty)
    qed
  qed
  then show ?thesis by (simp add: sorted_wrt_map)
qed

lemma hash_loop_done:
  "\<not> idx < c \<Longrightarrow> hash_loop bitsets c rb idx prs = prs"
  by simp

lemma hash_loop_step:
  "idx < c \<Longrightarrow>
   hash_loop bitsets c rb idx prs =
     hash_loop bitsets c rb (Suc idx)
       (range_loop (Suc idx = c \<and> upper rb = []) (bitsets ! idx) prs)"
  by (subst hash_loop.simps) simp

declare hash_loop.simps [simp del]

lemma hash_loop_sorted:
  assumes "prefix_inv n prs" "c \<le> length bitsets" "\<forall>bs \<in> set bitsets. length bs < 2 ^ 32"
  shows "sorted_wrt ordered_pair
           (map (app_bounds (lower rb) (upper rb)) (hash_loop bitsets c rb idx prs))"
  using assms
proof (induction bitsets c rb idx prs arbitrary: n rule: hash_loop.induct)
  case (1 bitsets c rb idx prs)
  show ?case
  proof (cases "idx < c")
    case False
    with "1.prems" show ?thesis by (simp add: hash_loop_done prefix_inv_bounds)
  next
    case True
    then have len: "length (bitsets ! idx) < 2 ^ 32" using "1.prems"(2,3) by simp
    show ?thesis
    proof (cases "idx + 1 = c \<and> upper rb = []")
      case last: True
      then have "hash_loop bitsets c rb idx prs = range_loop True (bitsets ! idx) prs"
        using True by (simp add: hash_loop_step hash_loop_done)
      with last prefix_inv_last [OF "1.prems"(1) len] show ?thesis by simp
    next
      case False
      then have nl: "(Suc idx = c \<and> upper rb = []) = False" by simp
      have p: "prefix_inv (n + 4) (range_loop False (bitsets ! idx) prs)"
        using "1.prems"(1) len by (intro prefix_inv_step) auto
      have "sorted_wrt ordered_pair (map (app_bounds (lower rb) (upper rb))
              (hash_loop bitsets c rb (Suc idx) (range_loop False (bitsets ! idx) prs)))"
        using "1.IH" [OF True refl, of "n + 4"] p "1.prems"(2,3) by (simp add: nl)
      then show ?thesis
        unfolding hash_loop_step [OF True] nl .
    qed
  qed
qed

lemma upper_bound_loop_stop:
  "i = 0 \<or> (end_key (v ! (i - 1)) \<noteq> [] \<and> end_key (v ! (i - 1)) \<le> ub) \<Longrightarrow>
   upper_bound_loop ub v i = v"
  by (cases i) auto

lemma upper_bound_loop_sorted:
  "sorted_wrt ordered_pair v \<Longrightarrow> sorted_wrt ordered_pair (upper_bound_loop ub v (length v))"
proof (induction v rule: rev_induct)
  case Nil
  show ?case by simp
next
  case (snoc r xs)
  from snoc.prems have sx: "sorted_wrt ordered_pair xs"
    and xr: "\<forall>x \<in> set xs. ordered_pair x r"
    by (simp_all add: sorted_wrt_append)
  show ?case
  proof (cases "end_key r \<noteq> [] \<and> end_key r \<le> ub")
    case True
    with snoc.prems show ?thesis by (simp add: nth_append)
  next
    case nb: False
    show ?thesis
    proof (cases "ub \<le> start r")
      case True
      with nb snoc.IH [OF sx] show ?thesis by (auto simp: nth_append)
    next
      case False
      let ?r = "r\<lparr>end_key := ub\<rparr>"
      have stop: "upper_bound_loop ub (xs @ [?r]) (length xs) = xs @ [?r]"
      proof (rule upper_bound_loop_stop, cases xs rule: rev_cases)
        case Nil
        then show "length xs = 0 \<or> (end_key ((xs @ [?r]) ! (length xs - 1)) \<noteq> [] \<and>
                     end_key ((xs @ [?r]) ! (length xs - 1)) \<le> ub)" by simp
      next
        case (snoc ys q)
        with xr have "ordered_pair q r" by simp
        with False have "end_key q \<noteq> [] \<and> end_key q \<le> ub"
          by (auto simp: ordered_pair_def)
        moreover have "(xs @ [?r]) ! (length xs - 1) = q" using snoc by (simp add: nth_append)
        ultimately show "length xs = 0 \<or> (end_key ((xs @ [?r]) ! (length xs - 1)) \<noteq> [] \<and>
                     end_key ((xs @ [?r]) ! (length xs - 1)) \<le> ub)" by simp
      qed
      have "\<forall>x \<in> set xs. ordered_pair x ?r"
        using xr False by (auto simp: ordered_pair_def)
      with sx have "sorted_wrt ordered_pair (xs @ [?r])" by (simp add: sorted_wrt_append)
      with nb False stop show ?thesis by (auto simp: nth_append)
    qed
  qed
qed

lemma set_buckets_length:
  "set_buckets ext d es bs = Inr bs' \<Longrightarrow> length bs' = length bs"
  by (induction es arbitrary: bs) (auto simp: Let_def split: if_splits)

lemma PruneHashComponent_length:
  "PruneHashComponent ext d schema scan_spec = Inr bs \<Longrightarrow> length bs = num_buckets d"
  by (auto simp: PruneHashComponent_def split: sum.splits dest: set_buckets_length)

lemma hash_bucket_bitsets_lengths:
  "hash_bucket_bitsets_loop ext schema scan_spec hs = Inr bitsets \<Longrightarrow>
   map length bitsets = map num_buckets hs"
proof (induction hs arbitrary: bitsets)
  case Nil
  then show ?case by simp
next
  case (Cons d hs)
  then show ?case
    by (auto split: sum.splits if_splits dest: PruneHashComponent_length)
qed

lemma constrained_index_le: "constrained_index hs bitsets rb \<le> length hs"
  by (simp add: constrained_index_def)

lemma ranges_of_bitsets_sorted:
  assumes "map length bitsets = map num_buckets hs" "wf_hash_schema hs"
  shows "sorted_wrt ordered_pair (ranges_of_bitsets scan_spec hs rb bitsets)"
proof -
  have len: "length bitsets = length hs" using assms(1) by (metis length_map)
  have small: "\<forall>bs \<in> set bitsets. length bs < 2 ^ 32"
  proof
    fix bs assume "bs \<in> set bitsets"
    then have "length bs \<in> set (map num_buckets hs)" using assms(1) [symmetric] by auto
    then have "length bs < 2 ^ 31" using assms(2) by (auto simp: wf_hash_schema_def list_all_iff)
    then show "length bs < 2 ^ 32" by simp
  qed
  have c: "constrained_index hs bitsets rb \<le> length bitsets"
    using constrained_index_le [of hs bitsets rb] len by simp
  have "sorted_wrt ordered_pair (map (app_bounds (lower rb) (upper rb))
          (hash_loop bitsets (constrained_index hs bitsets rb) rb 0 [\<lparr>start = [], end_key = []\<rparr>]))"
    by (rule hash_loop_sorted [OF prefix_inv_seed c small])
  then have s: "sorted_wrt ordered_pair
          (map (\<lambda>r. \<lparr>start = start r @ lower rb, end_key = end_key r @ upper rb\<rparr>)
          (hash_loop bitsets (constrained_index hs bitsets rb) rb 0 [\<lparr>start = [], end_key = []\<rparr>]))"
    by (simp add: app_bounds_def [abs_def])
  show ?thesis
    unfolding ranges_of_bitsets_def Let_def
    using s upper_bound_loop_sorted [OF s] by simp
qed

lemma ConstructPartitionKeyRanges_sorted:
  "ConstructPartitionKeyRanges ext schema scan_spec hs rb = Inr ranges \<Longrightarrow> wf_hash_schema hs \<Longrightarrow>
   sorted_wrt ordered_pair ranges"
  by (auto simp: ConstructPartitionKeyRanges_def split: sum.splits
        dest: hash_bucket_bitsets_lengths intro: ranges_of_bitsets_sorted)

lemma construct_buckets_inv:
  "construct_buckets ext schema scan_spec lo hi sel = Inr p \<Longrightarrow>
   \<forall>x \<in> set sel. wf_hash_schema (snd x) \<Longrightarrow> cursor_inv p"
proof (induction sel arbitrary: p)
  case Nil
  then show ?case by (simp add: cursor_inv_def)
next
  case (Cons x sel)
  obtain rb hs where x: "x = (rb, hs)" by (cases x)
  let ?bounds = "if lo = [] \<and> hi = [] then \<lparr>lower = lower rb, upper = upper rb\<rparr>
                 else \<lparr>lower = lo, upper = hi\<rparr>"
  from Cons.prems(1) x obtain ranges others where
    c: "ConstructPartitionKeyRanges ext schema scan_spec hs ?bounds = Inr ranges"
    and o: "construct_buckets ext schema scan_spec lo hi sel = Inr others"
    and p: "p = \<lparr>range_bounds = rb, partition_key_ranges = rev ranges\<rparr> # others"
    by (auto simp: Let_def split: sum.splits)
  from Cons.prems(2) x have "wf_hash_schema hs" by simp
  with c have "sorted_wrt ordered_pair ranges" by (rule ConstructPartitionKeyRanges_sorted)
  moreover from Cons.IH [OF o] Cons.prems(2) have "cursor_inv others" by simp
  ultimately show ?case using p by (simp add: cursor_inv_def bucket_inv_def)
qed

lemma select_ranges_subset:
  "x \<in> set (select_ranges lo hi rs) \<Longrightarrow> \<exists>r \<in> set rs. snd x = seg_hash_schema r"
  by (induction rs) (auto simp: Let_def split: if_splits)

lemma stored_buckets_inv:
  assumes "stored_buckets ext schema ps scan_spec lo hi = Inr p" "wf_partition_schema ps"
  shows "cursor_inv p"
proof (cases "ranges_with_hash_schemas ps = []")
  case True
  with assms show ?thesis
    by (auto simp: stored_buckets_def wf_partition_schema_def cursor_inv_def bucket_inv_def
          split: sum.splits dest: ConstructPartitionKeyRanges_sorted)
next
  case False
  have "\<forall>x \<in> set (select_ranges lo hi (ranges_with_hash_schemas ps)). wf_hash_schema (snd x)"
    using assms(2) select_ranges_subset
    by (fastforce simp: wf_partition_schema_def list_all_iff)
  with assms(1) False show ?thesis
    by (auto simp: stored_buckets_def dest: construct_buckets_inv)
qed

lemma RemovePartitionKeyRange_inv:
  "cursor_inv p \<Longrightarrow> cursor_inv (RemovePartitionKeyRange ub p)"
proof -
  assume inv: "cursor_inv p"
  have "bucket_inv (remove_loop ub v (length v))" if "bucket_inv v" for v
    using remove_loop_advance [of "rev v" ub] advance_bucket_inv [of "rev v" ub] that
    by (simp add: bucket_inv_def)
  with inv show ?thesis
    by (auto simp: RemovePartitionKeyRange_def cursor_inv_def list_all_iff)
qed

lemma Init_inv:
  assumes "Init ext schema ps scan_spec buf = Inr p" "wf_partition_schema ps"
  shows "cursor_inv p"
  using assms
  by (auto simp: Init_def cursor_inv_def split: if_splits sum.splits prod.splits
        dest!: stored_buckets_inv intro: RemovePartitionKeyRange_inv [unfolded cursor_inv_def])

section \<open>The example table\<close>

lemma ex_Init: "Init ex_ext ex_schema ex_partition_schema ex_scan [] = Inr ex_cursor"
  by code_simp

lemma ex_Init_upper:
  "Init ex_ext ex_schema ex_partition_schema ex_scan_upper [] = Inr ex_cursor_upper"
  by code_simp

lemma ex_Init_from_2:
  "Init ex_ext ex_schema ex_partition_schema ex_scan_from_2 [] = Inr ex_cursor_from_2"
  by code_simp

lemma ex_bounds_from_2:
  "scan_range_bounds ex_ext ex_schema ex_partition_schema ex_scan_from_2 [] = Inr ([2], [])"
  by code_simp

lemma ex_stored_from_2:
  "stored_buckets ex_ext ex_schema ex_partition_schema ex_scan_from_2 [2] [] =
     Inr ex_cursor_from_2"
  by code_simp

lemma ex_inv: "cursor_inv ex_cursor"
  by code_simp

lemma ex_wf: "wf_partition_schema ex_partition_schema"
  by (simp add: wf_partition_schema_def wf_hash_schema_def ex_partition_schema_def
        ex_seg_1_3_def ex_seg_3_5_def ex_dim_def)

section \<open>The next partition key\<close>

lemma NextPartitionKey_no_more:
  "\<not> HasMorePartitionKeyRanges p \<Longrightarrow> NextPartitionKey p = Inl CheckFailed"
  by (simp add: NextPartitionKey_def)

lemma NextPartitionKey_returns:
  "HasMorePartitionKeyRanges p \<Longrightarrow> partition_key_ranges (last p) \<noteq> [] \<Longrightarrow>
   NextPartitionKey p = Inr (start (last (partition_key_ranges (last p))))"
  by (simp add: NextPartitionKey_def)

text \<open>
  C1. For the scan of the example table below the partition key \<open>(bucket 0, 3)\<close>, \<open>Init\<close>
  leaves one range in the first bucket and none in the last: there are more partition key
  ranges, the \<open>CHECK\<close> of \<open>NextPartitionKey\<close> passes, and \<open>back()\<close> is taken of the empty
  vector of the last bucket.
\<close>

theorem NextPartitionKey_empty_last_bucket:
  "Init ex_ext ex_schema ex_partition_schema ex_scan_upper [] = Inr ex_cursor_upper \<and>
   HasMorePartitionKeyRanges ex_cursor_upper \<and>
   NextPartitionKey ex_cursor_upper = Inl UndefinedBehaviour"
  by code_simp

section \<open>The order of the cursor after \<open>Init\<close>\<close>

text \<open>
  C2, as stated: the full cursor after \<open>Init\<close> is in ascending order of the start keys.
  It is not for the example table: the second range of the first bucket starts at
  \<open>(bucket 1, 1)\<close>, the first range of the second bucket at \<open>(bucket 0, 3)\<close>.
\<close>

theorem Init_cursor_not_ascending:
  "Init ex_ext ex_schema ex_partition_schema ex_scan [] = Inr ex_cursor \<and>
   \<not> ascending_starts (cursor_ranges ex_cursor)"
  by code_simp

lemma ordered_pair_start: "ordered_pair a b \<Longrightarrow> start a < start b"
  by (simp add: ordered_pair_def)

lemma bucket_inv_ascending: "bucket_inv v \<Longrightarrow> ascending_starts (rev v)"
  unfolding bucket_inv_def ascending_starts_def sorted_wrt_map
  by (erule sorted_wrt_mono_rel [rotated]) (rule ordered_pair_start)

text \<open>
  C2, amended: after \<open>Init\<close>, the ranges of each bucket, in natural order, are in strictly
  ascending order of their start keys.
\<close>

theorem Init_buckets_ascending:
  assumes "Init ext schema partition_schema scan_spec buf = Inr p"
    and "wf_partition_schema partition_schema"
  shows "list_all (\<lambda>b. ascending_starts (rev (partition_key_ranges b))) p"
proof -
  have "cursor_inv p" using assms by (rule Init_inv)
  then show ?thesis
    by (simp add: cursor_inv_def list_all_iff bucket_inv_ascending)
qed
theorem Init_buckets_ascending_witness:
  "Init ex_ext ex_schema ex_partition_schema ex_scan [] = Inr ex_cursor \<and>
   wf_partition_schema ex_partition_schema \<and>
   list_all (\<lambda>b. ascending_starts (rev (partition_key_ranges b))) ex_cursor"
  using Init_buckets_ascending [OF ex_Init ex_wf] ex_Init ex_wf by simp

section \<open>The keys of a scan\<close>

lemma advance_bucket_head:
  "advance_bucket u rs = x # xs \<Longrightarrow> u \<le> start x"
  by (induction rs) (auto split: if_splits)

lemma NextPartitionKey_after_remove:
  assumes "cursor_inv p" "u \<noteq> []" "NextPartitionKey (RemovePartitionKeyRange u p) = Inr k"
  shows "u \<le> k"
proof -
  let ?q = "RemovePartitionKeyRange u p"
  from assms(3) have more: "HasMorePartitionKeyRanges ?q"
    and ne: "partition_key_ranges (last ?q) \<noteq> []"
    and k: "k = start (last (partition_key_ranges (last ?q)))"
    by (auto simp: NextPartitionKey_def split: if_splits)
  from more have "?q \<noteq> []"
    by (auto simp: HasMorePartitionKeyRanges_def NumRangesRemaining_def)
  then have pne: "p \<noteq> []" using assms(2) by (simp add: RemovePartitionKeyRange_def)
  let ?v = "partition_key_ranges (last p)"
  from assms(1) pne have "bucket_inv ?v"
    by (simp add: cursor_inv_def list_all_iff)
  then have rl: "remove_loop u ?v (length ?v) = rev (advance_bucket u (rev ?v))"
    using remove_loop_advance [of "rev ?v" u] by (simp add: bucket_inv_def)
  have lq: "partition_key_ranges (last ?q) = rev (advance_bucket u (rev ?v))"
    using pne assms(2) rl by (simp add: RemovePartitionKeyRange_def last_map)
  with ne obtain x xs where a: "advance_bucket u (rev ?v) = x # xs"
    by (cases "advance_bucket u (rev ?v)") auto
  with lq k have "k = start x" by simp
  with advance_bucket_head [OF a] show ?thesis by simp
qed

lemma scan_keys_bounded:
  "cursor_inv p \<Longrightarrow> (\<And>k. NextPartitionKey p = Inr k \<Longrightarrow> lb \<le> k) \<Longrightarrow>
   scan_keys p es = Some ks \<Longrightarrow> (\<forall>k \<in> set ks. lb \<le> k) \<and> sorted_wrt (<) ks"
proof (induction es arbitrary: p lb ks)
  case Nil
  then show ?case by simp
next
  case (Cons e es)
  from Cons.prems(3) obtain k ks' where k: "NextPartitionKey p = Inr k" and lt: "k < e"
    and rest: "scan_keys (RemovePartitionKeyRange e p) es = Some ks'" and ks: "ks = k # ks'"
    by (auto split: sum.splits if_splits option.splits)
  from lt have ne: "e \<noteq> []" by auto
  have inv: "cursor_inv (RemovePartitionKeyRange e p)"
    using Cons.prems(1) by (rule RemovePartitionKeyRange_inv)
  have "(\<forall>k' \<in> set ks'. e \<le> k') \<and> sorted_wrt (<) ks'"
    using inv _ rest
  proof (rule Cons.IH)
    fix k' assume "NextPartitionKey (RemovePartitionKeyRange e p) = Inr k'"
    with Cons.prems(1) ne show "e \<le> k'" by (rule NextPartitionKey_after_remove)
  qed
  moreover have "lb \<le> k" using k by (rule Cons.prems(2))
  ultimately show ?case using ks lt by auto
qed

text \<open>
  While every call of \<open>NextPartitionKey\<close> returns a key, the keys of a scan of an
  initialised pruner are strictly ascending.
\<close>

lemma scan_keys_ascending:
  assumes "Init ext schema partition_schema scan_spec buf = Inr p"
    and "wf_partition_schema partition_schema"
    and "scan_keys p ends = Some keys"
  shows "sorted_wrt (<) keys"
proof -
  have "cursor_inv p" using assms(1,2) by (rule Init_inv)
  then have "(\<forall>k \<in> set keys. [] \<le> k) \<and> sorted_wrt (<) keys"
    using _ assms(3) by (rule scan_keys_bounded) simp
  then show ?thesis by simp
qed

lemma scan_keys_ascending_example:
  "Init ex_ext ex_schema ex_partition_schema ex_scan [] = Inr ex_cursor \<and>
   wf_partition_schema ex_partition_schema \<and>
   scan_keys ex_cursor [[0, 0, 0, 0, 5], [0, 0, 0, 1, 4], [0, 0, 0, 2]] =
     Some [[0, 0, 0, 0, 3], [0, 0, 0, 1, 3], [0, 0, 0, 1, 4]] \<and>
   sorted_wrt (<) [[0, 0, 0, 0, 3], [0, 0, 0, 1, 3], [0, 0, 0, 1, 4 :: 8 word]]"
proof -
  have run: "scan_keys ex_cursor [[0, 0, 0, 0, 5], [0, 0, 0, 1, 4], [0, 0, 0, 2]] =
     Some [[0, 0, 0, 0, 3], [0, 0, 0, 1, 3], [0, 0, 0, 1, 4]]"
    by code_simp
  show ?thesis
    using scan_keys_ascending [OF ex_Init ex_wf run] ex_Init ex_wf run by simp
qed

text \<open>
  C3. The keys that successive calls of \<open>NextPartitionKey\<close> return, each call followed by
  \<open>RemovePartitionKeyRange\<close> with a greater bound, are not all defined. For the scan of all
  rows of the table whose ranges are hashed into three buckets and into one,
  \<open>NextPartitionKey\<close> returns \<open>(bucket 0, 3)\<close>; after \<open>RemovePartitionKeyRange\<close> with
  the greater bound \<open>(bucket 0, 5)\<close> two ranges of the first bucket remain, the last bucket
  is empty, and the next \<open>NextPartitionKey\<close> takes \<open>back()\<close> of its empty vector.
\<close>

theorem scan_reaches_empty_last_bucket:
  "Init ex_ext ex_schema ex_partition_schema_3_1 ex_scan [] = Inr ex_cursor_3_1 \<and>
   NextPartitionKey ex_cursor_3_1 = Inr [0, 0, 0, 0, 3] \<and>
   [0, 0, 0, 0, 3] < [0, 0, 0, 0, 5 :: 8 word] \<and>
   HasMorePartitionKeyRanges (RemovePartitionKeyRange [0, 0, 0, 0, 5] ex_cursor_3_1) \<and>
   NextPartitionKey (RemovePartitionKeyRange [0, 0, 0, 0, 5] ex_cursor_3_1) =
     Inl UndefinedBehaviour"
  by code_simp

section \<open>The bucket appended to the end of a range\<close>

lemma unat_of_nat_u32: "n < 2 ^ 32 \<Longrightarrow> unat (of_nat n :: 32 word) = n"
  by (simp add: unat_of_nat take_bit_nat_eq_self)

lemma extend_at_Nil: "extend_at c rb idx r [] = r"
  by (simp add: extend_at_def)

lemma extend_at_Cons:
  "extend_at c rb (Suc idx) (append_bucket (Suc idx = c \<and> upper rb = []) r (of_nat b)) t =
   extend_at c rb idx r (b # t)"
proof -
  have u: "[idx..<idx + length (b # t)] = idx # [Suc idx..<Suc idx + length t]"
    using upt_conv_Cons [of idx "idx + Suc (length t)"] by simp
  show ?thesis
    unfolding extend_at_def u
    by (simp add: append_bucket_def end_bucket_def)
qed

lemma extend_at_Cons_fun:
  "extend_at c rb (Suc idx) (append_bucket (Suc idx = c \<and> upper rb = []) r (of_nat b)) =
   (\<lambda>t. extend_at c rb idx r (b # t))"
  by (rule ext) (rule extend_at_Cons)

lemma range_loop_tuples:
  "concat (map (\<lambda>r. map (extend_at c rb (Suc idx) r) ts)
            (range_loop (Suc idx = c \<and> upper rb = []) bitset prs)) =
   concat (map (\<lambda>r. map (extend_at c rb idx r)
                       (concat (map (\<lambda>b. map ((#) b) ts) (surviving bitset)))) prs)"
proof (induction prs)
  case Nil
  show ?case by simp
next
  case (Cons r prs)
  have "concat (map (\<lambda>r'. map (extend_at c rb (Suc idx) r') ts)
          (bucket_loop (Suc idx = c \<and> upper rb = []) bitset r [0..<length bitset])) =
        map (extend_at c rb idx r) (concat (map (\<lambda>b. map ((#) b) ts) (surviving bitset)))"
    by (simp add: bucket_loop_map surviving_def map_concat comp_def extend_at_Cons_fun)
  with Cons show ?case by simp
qed

lemma hash_loop_tuples:
  "c \<le> length bitsets \<Longrightarrow>
   hash_loop bitsets c rb idx prs =
     concat (map (\<lambda>r. map (extend_at c rb idx r) (bucket_tuples (drop idx (take c bitsets))))
               prs)"
proof (induction bitsets c rb idx prs rule: hash_loop.induct)
  case (1 bitsets c rb idx prs)
  show ?case
  proof (cases "idx < c")
    case False
    then show ?thesis by (simp add: hash_loop_done extend_at_Nil)
  next
    case True
    with "1.prems" have d: "drop idx (take c bitsets) =
        bitsets ! idx # drop (Suc idx) (take c bitsets)"
      by (simp add: Cons_nth_drop_Suc [symmetric])
    have "hash_loop bitsets c rb (Suc idx)
            (range_loop (Suc idx = c \<and> upper rb = []) (bitsets ! idx) prs) =
          concat (map (\<lambda>r. map (extend_at c rb (Suc idx) r)
                     (bucket_tuples (drop (Suc idx) (take c bitsets))))
            (range_loop (Suc idx = c \<and> upper rb = []) (bitsets ! idx) prs))"
      using "1.IH" [OF True refl] "1.prems" by simp
    then show ?thesis
      unfolding hash_loop_step [OF True] d bucket_tuples.simps range_loop_tuples .
  qed
qed

lemma ranges_of_bitsets_tuples:
  assumes "length bitsets = length hs"
  shows "ranges_of_bitsets scan_spec hs rb bitsets =
     (let ranges = map (range_of_tuple (constrained_index hs bitsets rb) rb)
                     (bucket_tuples (take (constrained_index hs bitsets rb) bitsets))
      in if exclusive_upper_bound_partition_key scan_spec \<noteq> []
         then upper_bound_loop (exclusive_upper_bound_partition_key scan_spec)
                ranges (length ranges)
         else ranges)"
proof -
  have c: "constrained_index hs bitsets rb \<le> length bitsets"
    using constrained_index_le [of hs bitsets rb] assms by simp
  show ?thesis
    unfolding ranges_of_bitsets_def hash_loop_tuples [OF c] Let_def
    by (simp add: extend_at_def range_of_tuple_def [abs_def] comp_def)
qed

text \<open>
  C5. \<open>ConstructPartitionKeyRanges\<close> enumerates one range for every tuple of surviving
  buckets of the hash dimensions below the constrained index \<open>C\<close>, before it removes the
  ranges past the scan's upper bound: for the dimension \<open>i < C\<close> and the bucket \<open>b\<close> of the
  tuple, the end of the range receives \<open>b + 1\<close> exactly when \<open>i = C - 1\<close> and the range
  upper bound is empty, and \<open>b\<close> otherwise. When that last bucket is the last of its
  dimension, the end receives the number of buckets, which fits 32 bits and is greater than
  every key of that bucket; the components before it are those of the start.
\<close>

theorem ConstructPartitionKeyRanges_bucket_upper:
  assumes "hash_bucket_bitsets_loop ext schema scan_spec hs = Inr bitsets"
  shows "ConstructPartitionKeyRanges ext schema scan_spec hs rb =
           Inr (let c = constrained_index hs bitsets rb;
                    ranges = map (range_of_tuple c rb) (bucket_tuples (take c bitsets))
                in if exclusive_upper_bound_partition_key scan_spec \<noteq> []
                   then upper_bound_loop (exclusive_upper_bound_partition_key scan_spec)
                          ranges (length ranges)
                   else ranges) \<and>
         (\<forall>i b. Suc i = constrained_index hs bitsets rb \<and> upper rb = [] \<and>
                 wf_hash_schema hs \<and> Suc b = num_buckets (hs ! i) \<longrightarrow>
                 length (bitsets ! i) = num_buckets (hs ! i) \<and>
                 end_bucket (constrained_index hs bitsets rb) rb i b =
                   of_nat (num_buckets (hs ! i)) \<and>
                 unat (of_nat (num_buckets (hs ! i)) :: 32 word) = num_buckets (hs ! i) \<and>
                 (\<forall>key rest. key @ encode_u32 (of_nat b) @ rest <
                              key @ encode_u32 (of_nat (num_buckets (hs ! i)))))"
proof -
  let ?c = "constrained_index hs bitsets rb"
  have lens: "map length bitsets = map num_buckets hs"
    using assms by (rule hash_bucket_bitsets_lengths)
  then have len: "length bitsets = length hs" by (metis length_map)
  have enum: "ConstructPartitionKeyRanges ext schema scan_spec hs rb =
           Inr (let c = ?c;
                    ranges = map (range_of_tuple c rb) (bucket_tuples (take c bitsets))
                in if exclusive_upper_bound_partition_key scan_spec \<noteq> []
                   then upper_bound_loop (exclusive_upper_bound_partition_key scan_spec)
                          ranges (length ranges)
                   else ranges)"
    using assms ranges_of_bitsets_tuples [OF len, of scan_spec rb]
    by (simp add: ConstructPartitionKeyRanges_def Let_def)
  have last: "length (bitsets ! i) = num_buckets (hs ! i) \<and>
              end_bucket ?c rb i b = of_nat (num_buckets (hs ! i)) \<and>
              unat (of_nat (num_buckets (hs ! i)) :: 32 word) = num_buckets (hs ! i) \<and>
              (\<forall>key rest. key @ encode_u32 (of_nat b) @ rest <
                           key @ encode_u32 (of_nat (num_buckets (hs ! i))))"
    if h: "Suc i = ?c \<and> upper rb = [] \<and> wf_hash_schema hs \<and> Suc b = num_buckets (hs ! i)"
    for i b
  proof -
    let ?n = "num_buckets (hs ! i)"
    from h have i: "i < length hs" using constrained_index_le [of hs bitsets rb] by simp
    with lens len have 0: "length (bitsets ! i) = ?n"
      by (metis nth_map)
    from h i have "?n < 2 ^ 31" by (simp add: wf_hash_schema_def list_all_length)
    then have n: "?n < 2 ^ 32" by simp
    from h have s: "?n = Suc b" and b: "b < ?n" by simp_all
    have "end_bucket ?c rb i b = of_nat b + 1"
      using h by (simp add: end_bucket_def)
    also have "\<dots> = of_nat (Suc b)" by simp
    finally have 1: "end_bucket ?c rb i b = of_nat ?n"
      unfolding s .
    have 2: "unat (of_nat ?n :: 32 word) = ?n"
      using n by (rule unat_of_nat_u32)
    have "encode_u32 (of_nat b) < encode_u32 (of_nat ?n)"
      using b n by (rule encode_bucket_less)
    then have "encode_u32 (of_nat b) @ rest < encode_u32 (of_nat ?n) @ []" for rest
      by (intro append_less_same_length) (simp_all add: length_encode_u32)
    then have 3: "key @ encode_u32 (of_nat b) @ rest < key @ encode_u32 (of_nat ?n)" for key rest
      by (simp add: append_less_cancel)
    from 0 1 2 3 show ?thesis by blast
  qed
  from enum last show ?thesis by blast
qed

theorem ConstructPartitionKeyRanges_bucket_upper_witness:
  "hash_bucket_bitsets_loop ex_ext ex_schema ex_scan [ex_dim, ex_dim] =
     Inr [[True, True], [True, True]] \<and>
   ConstructPartitionKeyRanges ex_ext ex_schema ex_scan [ex_dim, ex_dim]
       \<lparr>lower = [2], upper = []\<rparr> =
     Inr [\<lparr>start = [0, 0, 0, 0, 0, 0, 0, 0, 2], end_key = [0, 0, 0, 0, 0, 0, 0, 1]\<rparr>,
          \<lparr>start = [0, 0, 0, 0, 0, 0, 0, 1, 2], end_key = [0, 0, 0, 0, 0, 0, 0, 2]\<rparr>,
          \<lparr>start = [0, 0, 0, 1, 0, 0, 0, 0, 2], end_key = [0, 0, 0, 1, 0, 0, 0, 1]\<rparr>,
          \<lparr>start = [0, 0, 0, 1, 0, 0, 0, 1, 2], end_key = [0, 0, 0, 1, 0, 0, 0, 2]\<rparr>] \<and>
   Suc 1 = constrained_index [ex_dim, ex_dim] [[True, True], [True, True]]
             \<lparr>lower = [2], upper = []\<rparr> \<and>
   wf_hash_schema [ex_dim, ex_dim] \<and>
   Suc 1 = num_buckets ([ex_dim, ex_dim] ! 1) \<and>
   end_bucket 2 \<lparr>lower = [2], upper = []\<rparr> 1 1 = 2 \<and>
   unat (of_nat (num_buckets ([ex_dim, ex_dim] ! 1)) :: 32 word) = 2"
proof -
  let ?rb = "\<lparr>lower = [2], upper = []\<rparr>"
  have b: "hash_bucket_bitsets_loop ex_ext ex_schema ex_scan [ex_dim, ex_dim] =
     Inr [[True, True], [True, True]]"
    by code_simp
  have c: "Suc 1 = constrained_index [ex_dim, ex_dim] [[True, True], [True, True]] ?rb"
    by code_simp
  have w: "wf_hash_schema [ex_dim, ex_dim]"
    by (simp add: wf_hash_schema_def ex_dim_def)
  have n: "Suc 1 = num_buckets ([ex_dim, ex_dim] ! 1)"
    by (simp add: ex_dim_def)
  have e: "(let c = constrained_index [ex_dim, ex_dim] [[True, True], [True, True]] ?rb;
                ranges = map (range_of_tuple c ?rb) (bucket_tuples (take c [[True, True], [True, True]]))
            in if exclusive_upper_bound_partition_key ex_scan \<noteq> []
               then upper_bound_loop (exclusive_upper_bound_partition_key ex_scan)
                      ranges (length ranges)
               else ranges) =
         [\<lparr>start = [0, 0, 0, 0, 0, 0, 0, 0, 2], end_key = [0, 0, 0, 0, 0, 0, 0, 1]\<rparr>,
          \<lparr>start = [0, 0, 0, 0, 0, 0, 0, 1, 2], end_key = [0, 0, 0, 0, 0, 0, 0, 2]\<rparr>,
          \<lparr>start = [0, 0, 0, 1, 0, 0, 0, 0, 2], end_key = [0, 0, 0, 1, 0, 0, 0, 1]\<rparr>,
          \<lparr>start = [0, 0, 0, 1, 0, 0, 0, 1, 2], end_key = [0, 0, 0, 1, 0, 0, 0, 2]\<rparr>]"
    by code_simp
  note t = ConstructPartitionKeyRanges_bucket_upper [OF b, of ?rb]
  from t have 1: "ConstructPartitionKeyRanges ex_ext ex_schema ex_scan [ex_dim, ex_dim] ?rb =
     Inr [\<lparr>start = [0, 0, 0, 0, 0, 0, 0, 0, 2], end_key = [0, 0, 0, 0, 0, 0, 0, 1]\<rparr>,
          \<lparr>start = [0, 0, 0, 0, 0, 0, 0, 1, 2], end_key = [0, 0, 0, 0, 0, 0, 0, 2]\<rparr>,
          \<lparr>start = [0, 0, 0, 1, 0, 0, 0, 0, 2], end_key = [0, 0, 0, 1, 0, 0, 0, 1]\<rparr>,
          \<lparr>start = [0, 0, 0, 1, 0, 0, 0, 1, 2], end_key = [0, 0, 0, 1, 0, 0, 0, 2]\<rparr>]"
    unfolding e by (rule conjunct1)
  have u: "upper ?rb = []" by simp
  from t [THEN conjunct2, rule_format, of 1 1] c u w n have 2:
    "end_bucket (constrained_index [ex_dim, ex_dim] [[True, True], [True, True]] ?rb) ?rb 1 1 =
       of_nat (num_buckets ([ex_dim, ex_dim] ! 1)) \<and>
     unat (of_nat (num_buckets ([ex_dim, ex_dim] ! 1)) :: 32 word) =
       num_buckets ([ex_dim, ex_dim] ! 1)"
    by blast
  from 2 have 3: "end_bucket 2 ?rb 1 1 = 2"
    "unat (of_nat (num_buckets ([ex_dim, ex_dim] ! 1)) :: 32 word) = 2"
    unfolding c [symmetric] by (simp_all add: ex_dim_def numeral_2_eq_2)
  from b 1 c w n 3 show ?thesis by blast
qed

section \<open>The range upper bound from the primary key\<close>

lemma copy_cells_nth:
  "copy_cells idxs raw row =
     map (\<lambda>i. if i \<in> set idxs then raw ! i else row ! i) [0..<length row]"
proof (induction idxs arbitrary: row)
  case Nil
  show ?case by (simp add: map_nth)
next
  case (Cons idx rest)
  show ?case
    unfolding copy_cells.simps Cons.IH
    by (auto simp: nth_list_update)
qed

lemma copy_cells_prefix:
  "copy_cells [0..<n] raw buf = prefix_row n raw buf"
  by (simp add: copy_cells_nth prefix_row_def)

lemma prefix_row_overwrite:
  "prefix_row n raw (prefix_row n raw' buf) = prefix_row n raw buf"
  by (simp add: prefix_row_def)

lemma min_suffix_loop_all:
  "min_suffix_loop schema raw idxs acc =
     (acc \<and> list_all (\<lambda>i. IsMinValue (type_info (columns schema ! i)) (raw ! i)) idxs)"
  by (induction idxs arbitrary: acc) auto

text \<open>
  C7. When the range columns are a proper prefix of the primary key and the scan has an
  exclusive upper bound key, the range upper bound is the encoding of the first columns of
  that key if the other key columns hold the minimum value, else the encoding of the
  incremented prefix, and it stays empty if the prefix cannot be incremented.
\<close>

theorem range_upper_from_primary_key:
  assumes "n < num_key_columns schema"
    and "exclusive_upper_bound_key scan_spec = Some k"
  shows "snd (EncodeRangeKeysFromPrimaryKeyBounds ext schema scan_spec n buf ([], [])) =
           range_upper_spec ext schema n buf k"
  using assms
  by (simp add: EncodeRangeKeysFromPrimaryKeyBounds_def range_upper_spec_def Let_def
        copy_cells_prefix prefix_row_overwrite min_suffix_loop_all split: option.splits)

theorem range_upper_from_primary_key_witness:
  "1 < num_key_columns ex_schema_ab \<and>
   exclusive_upper_bound_key ex_scan_below_4_7 = Some ex_key_4_7 \<and>
   snd (EncodeRangeKeysFromPrimaryKeyBounds ex_ext ex_schema_ab ex_scan_below_4_7 1 [[0], [9]]
          ([], [])) = [5]"
proof -
  have 1: "1 < num_key_columns ex_schema_ab" by code_simp
  have 2: "exclusive_upper_bound_key ex_scan_below_4_7 = Some ex_key_4_7" by code_simp
  have 3: "range_upper_spec ex_ext ex_schema_ab 1 [[0], [9]] ex_key_4_7 = [5]" by code_simp
  show ?thesis
    using range_upper_from_primary_key [OF 1 2, of ex_ext "[[0], [9]]"] 1 2 3 by simp
qed

section \<open>The range segments that \<open>Init\<close> includes\<close>

lemma select_ranges_filter:
  "select_ranges lo hi segs =
     map (\<lambda>seg. (seg_bounds seg, seg_hash_schema seg)) (filter (segment_included lo hi) segs)"
  by (induction segs) (auto simp: Let_def segment_included_def seg_bounds_def)

lemma construct_buckets_built:
  "construct_buckets ext schema scan_spec lo hi
     (map (\<lambda>seg. (seg_bounds seg, seg_hash_schema seg)) segs) = Inr p \<Longrightarrow>
   list_all2 (built_from ext schema scan_spec lo hi) p segs"
proof (induction segs arbitrary: p)
  case Nil
  then show ?case by simp
next
  case (Cons seg segs)
  from Cons.prems obtain ranges others where
    c: "ConstructPartitionKeyRanges ext schema scan_spec (seg_hash_schema seg)
          (bounds_for lo hi seg) = Inr ranges"
    and o: "construct_buckets ext schema scan_spec lo hi
          (map (\<lambda>seg. (seg_bounds seg, seg_hash_schema seg)) segs) = Inr others"
    and p: "p = \<lparr>range_bounds = seg_bounds seg, partition_key_ranges = rev ranges\<rparr> # others"
    by (auto simp: Let_def bounds_for_def seg_bounds_def split: sum.splits if_splits)
  from c p Cons.IH [OF o] show ?case by (simp add: built_from_def)
qed

lemma stored_buckets_built:
  assumes "stored_buckets ext schema ps scan_spec lo hi = Inr q"
    and "ranges_with_hash_schemas ps \<noteq> []"
  shows "list_all2 (built_from ext schema scan_spec lo hi) q
           (filter (segment_included lo hi) (ranges_with_hash_schemas ps))"
  using assms
  by (auto simp: stored_buckets_def select_ranges_filter intro: construct_buckets_built)

lemma RemovePartitionKeyRange_bounds:
  "ub \<noteq> [] \<Longrightarrow> map range_bounds (RemovePartitionKeyRange ub q) = map range_bounds q"
  by (simp add: RemovePartitionKeyRange_def)

lemma Init_stored:
  assumes "Init ext schema ps scan_spec buf = Inr p" "\<not> CanShortCircuit scan_spec"
    and "scan_range_bounds ext schema ps scan_spec buf = Inr (lo, hi)"
  shows "\<exists>q. stored_buckets ext schema ps scan_spec lo hi = Inr q \<and>
             p = (if lower_bound_partition_key scan_spec \<noteq> []
                  then RemovePartitionKeyRange (lower_bound_partition_key scan_spec) q else q)"
  using assms by (auto simp: Init_def split: sum.splits if_splits)

text \<open>
  C8. With custom range segments, the buckets after \<open>Init\<close> are those of the segments that
  overlap the scan's range bounds, in the order of the segments.
\<close>

theorem Init_included_segments:
  assumes "Init ext schema partition_schema scan_spec buf = Inr p"
    and "\<not> CanShortCircuit scan_spec"
    and "ranges_with_hash_schemas partition_schema \<noteq> []"
    and "scan_range_bounds ext schema partition_schema scan_spec buf = Inr (range_lower, range_upper)"
  shows "map range_bounds p =
           map seg_bounds (filter (segment_included range_lower range_upper)
                             (ranges_with_hash_schemas partition_schema))"
proof -
  from Init_stored [OF assms(1,2,4)] obtain q where
    q: "stored_buckets ext schema partition_schema scan_spec range_lower range_upper = Inr q"
    and p: "p = (if lower_bound_partition_key scan_spec \<noteq> []
                 then RemovePartitionKeyRange (lower_bound_partition_key scan_spec) q else q)"
    by blast
  from p have "map range_bounds p = map range_bounds q"
    by (simp add: RemovePartitionKeyRange_bounds)
  moreover have "list_all2 (\<lambda>b seg. range_bounds b = seg_bounds seg) q
       (filter (segment_included range_lower range_upper) (ranges_with_hash_schemas partition_schema))"
    using stored_buckets_built [OF q assms(3)]
    by (rule list_all2_mono) (simp add: built_from_def)
  then have "map range_bounds q = map seg_bounds
       (filter (segment_included range_lower range_upper) (ranges_with_hash_schemas partition_schema))"
    by (simp add: list_all2_conv_all_nth list_eq_iff_nth_eq)
  ultimately show ?thesis by simp
qed

theorem Init_included_segments_witness:
  "Init ex_ext ex_schema ex_partition_schema ex_scan_below_3 [] = Inr ex_cursor_below_3 \<and>
   \<not> CanShortCircuit ex_scan_below_3 \<and>
   ranges_with_hash_schemas ex_partition_schema \<noteq> [] \<and>
   scan_range_bounds ex_ext ex_schema ex_partition_schema ex_scan_below_3 [] = Inr ([], [3]) \<and>
   map range_bounds ex_cursor_below_3 = [\<lparr>lower = [1], upper = [3]\<rparr>] \<and>
   filter (segment_included [] [3]) (ranges_with_hash_schemas ex_partition_schema) = [ex_seg_1_3]"
proof -
  have 1: "Init ex_ext ex_schema ex_partition_schema ex_scan_below_3 [] = Inr ex_cursor_below_3"
    by code_simp
  have 2: "\<not> CanShortCircuit ex_scan_below_3" by code_simp
  have 3: "ranges_with_hash_schemas ex_partition_schema \<noteq> []" by code_simp
  have 4: "scan_range_bounds ex_ext ex_schema ex_partition_schema ex_scan_below_3 [] =
             Inr ([], [3])" by code_simp
  have 5: "map seg_bounds (filter (segment_included [] [3])
             (ranges_with_hash_schemas ex_partition_schema)) = [\<lparr>lower = [1], upper = [3]\<rparr>]"
    by code_simp
  have 6: "filter (segment_included [] [3]) (ranges_with_hash_schemas ex_partition_schema) =
             [ex_seg_1_3]"
    by code_simp
  show ?thesis
    using Init_included_segments [OF 1 2 3 4] 1 2 3 4 5 6 by simp
qed

text \<open>
  C9, as stated: the ranges of an included segment are constructed with the intersection of
  the scan's range bounds and the segment's bounds when the scan has a range bound. For the
  scan of the keys from 2 of the example table they are not: the bucket of the range
  \<open>[1, 3)\<close> is constructed with the bounds \<open>[2, unbounded)\<close> of the scan.
\<close>

theorem Init_segment_bounds_not_intersected:
  "Init ex_ext ex_schema ex_partition_schema ex_scan_from_2 [] = Inr ex_cursor_from_2 \<and>
   scan_range_bounds ex_ext ex_schema ex_partition_schema ex_scan_from_2 [] = Inr ([2], []) \<and>
   segment_included [2] [] ex_seg_1_3 \<and>
   range_bounds (hd ex_cursor_from_2) = seg_bounds ex_seg_1_3 \<and>
   ConstructPartitionKeyRanges ex_ext ex_schema ex_scan_from_2 (seg_hash_schema ex_seg_1_3)
     (intersect_bounds \<lparr>lower = [2], upper = []\<rparr> (seg_bounds ex_seg_1_3)) \<noteq>
   Inr (rev (partition_key_ranges (hd ex_cursor_from_2)))"
  by code_simp

text \<open>
  C9, amended: the buckets that \<open>Init\<close> stores are constructed, one for each included
  segment, with the segment's hash schema and with the range bounds of the scan, as they
  are, when the scan has one, else with the segment's bounds; the cursor is this list of
  buckets, after the removal of the ranges below the scan's lower bound partition key if
  the scan has one.
\<close>

theorem Init_segment_ranges:
  assumes "Init ext schema partition_schema scan_spec buf = Inr p"
    and "\<not> CanShortCircuit scan_spec"
    and "ranges_with_hash_schemas partition_schema \<noteq> []"
    and "scan_range_bounds ext schema partition_schema scan_spec buf = Inr (range_lower, range_upper)"
    and "stored_buckets ext schema partition_schema scan_spec range_lower range_upper = Inr q"
  shows "list_all2 (built_from ext schema scan_spec range_lower range_upper) q
           (filter (segment_included range_lower range_upper)
              (ranges_with_hash_schemas partition_schema)) \<and>
         p = (if lower_bound_partition_key scan_spec \<noteq> []
              then RemovePartitionKeyRange (lower_bound_partition_key scan_spec) q else q)"
  using Init_stored [OF assms(1,2,4)] assms(5) stored_buckets_built [OF assms(5,3)] by auto

theorem Init_segment_ranges_witness:
  "Init ex_ext ex_schema ex_partition_schema ex_scan_from_2 [] = Inr ex_cursor_from_2 \<and>
   \<not> CanShortCircuit ex_scan_from_2 \<and>
   ranges_with_hash_schemas ex_partition_schema \<noteq> [] \<and>
   scan_range_bounds ex_ext ex_schema ex_partition_schema ex_scan_from_2 [] = Inr ([2], []) \<and>
   stored_buckets ex_ext ex_schema ex_partition_schema ex_scan_from_2 [2] [] = Inr ex_cursor_from_2 \<and>
   list_all2 (built_from ex_ext ex_schema ex_scan_from_2 [2] []) ex_cursor_from_2
     (filter (segment_included [2] []) (ranges_with_hash_schemas ex_partition_schema)) \<and>
   ex_cursor_from_2 = (if lower_bound_partition_key ex_scan_from_2 \<noteq> []
              then RemovePartitionKeyRange (lower_bound_partition_key ex_scan_from_2) ex_cursor_from_2
              else ex_cursor_from_2)"
proof -
  have 2: "\<not> CanShortCircuit ex_scan_from_2" by code_simp
  have 3: "ranges_with_hash_schemas ex_partition_schema \<noteq> []" by code_simp
  show ?thesis
    using Init_segment_ranges [OF ex_Init_from_2 2 3 ex_bounds_from_2 ex_stored_from_2]
      ex_Init_from_2 2 3 ex_bounds_from_2 ex_stored_from_2
    by simp
qed

section \<open>Advancing the example cursor\<close>

text \<open>
  The loop of \<open>RemovePartitionKeyRange\<close> has no \<open>break\<close> after it has replaced a start:
  on a bucket that is not ordered (here the unbounded range \<open>[0, )\<close> before \<open>[1, 9)\<close>) it
  goes on and replaces the next start as well. The order of the buckets is what makes it stop.
\<close>

lemma remove_loop_unordered:
  "remove_loop [5] [\<lparr>start = [1], end_key = [9]\<rparr>, \<lparr>start = [0], end_key = []\<rparr>] 2 =
     [\<lparr>start = [5], end_key = [9]\<rparr>, \<lparr>start = [5], end_key = []\<rparr>] \<and>
   rev (advance_bucket [5] [\<lparr>start = [0], end_key = []\<rparr>, \<lparr>start = [1], end_key = [9]\<rparr>]) =
     [\<lparr>start = [1], end_key = [9]\<rparr>, \<lparr>start = [5], end_key = []\<rparr>]"
  by code_simp

theorem RemovePartitionKeyRange_spec_witness:
  "RemovePartitionKeyRange [] ex_cursor = [] \<and>
   [0, 0, 0, 0, 2 :: 8 word] \<noteq> [] \<and> cursor_inv ex_cursor \<and>
   RemovePartitionKeyRange [0, 0, 0, 0, 2] ex_cursor =
     [\<lparr>range_bounds = \<lparr>lower = [1], upper = [3]\<rparr>,
       partition_key_ranges =
         [\<lparr>start = [0, 0, 0, 1, 1], end_key = [0, 0, 0, 1, 3]\<rparr>,
          \<lparr>start = [0, 0, 0, 0, 2], end_key = [0, 0, 0, 0, 3]\<rparr>]\<rparr>,
      \<lparr>range_bounds = \<lparr>lower = [3], upper = [5]\<rparr>,
       partition_key_ranges =
         [\<lparr>start = [0, 0, 0, 1, 3], end_key = [0, 0, 0, 1, 5]\<rparr>,
          \<lparr>start = [0, 0, 0, 0, 3], end_key = [0, 0, 0, 0, 5]\<rparr>]\<rparr>]"
proof -
  have e: "map (\<lambda>b. b\<lparr>partition_key_ranges :=
               rev (advance_bucket [0, 0, 0, 0, 2] (rev (partition_key_ranges b)))\<rparr>) ex_cursor =
     [\<lparr>range_bounds = \<lparr>lower = [1], upper = [3]\<rparr>,
       partition_key_ranges =
         [\<lparr>start = [0, 0, 0, 1, 1], end_key = [0, 0, 0, 1, 3]\<rparr>,
          \<lparr>start = [0, 0, 0, 0, 2], end_key = [0, 0, 0, 0, 3]\<rparr>]\<rparr>,
      \<lparr>range_bounds = \<lparr>lower = [3], upper = [5]\<rparr>,
       partition_key_ranges =
         [\<lparr>start = [0, 0, 0, 1, 3], end_key = [0, 0, 0, 1, 5]\<rparr>,
          \<lparr>start = [0, 0, 0, 0, 3], end_key = [0, 0, 0, 0, 5]\<rparr>]\<rparr>]"
    by code_simp
  show ?thesis
    using RemovePartitionKeyRange_spec [of "[]" ex_cursor]
      RemovePartitionKeyRange_spec [of "[0, 0, 0, 0, 2]" ex_cursor] ex_inv e
    by simp
qed

end
